theory Spec2Isabelle
  imports Complex_Main "HOL-Library.Product_Lexorder" "HOL-Library.List_Lexorder"
    "HOL-Library.Char_ord" "HOL-Library.AList" "HOL-Library.Log_Nat"
begin

unbundle bit_operations_syntax

section \<open>Chunked files: split trees, chunk iteration and the file reader (lib/bup/vfs.py)\<close>

text \<open>
  Python 2 \<open>str\<close> values are byte strings; they are modelled as \<open>string\<close> (a list of
  characters).  Python integers are unbounded and are modelled as \<open>int\<close>.
\<close>

type_synonym bytes = string

text \<open>The exceptions the modelled part of vfs.py can raise.\<close>

datatype error =
    AssertionError
  | UnboundLocalError
  | IndexError
  | NoSuchFile
  | NotFile
  | TooManySymlinks
  | AttributeError

text \<open>
  The repository is content addressed: an object is found through its hash, and the hash
  of a tree is computed from the hashes of its entries, so the objects reachable from a
  hash form a finite tree.  A stored object is therefore modelled together with the objects
  its entries point at.  A tree entry is kept in the form that the list comprehension of
  \<open>_tree_decode\<close> gives it, \<open>(int(name,16), stat.S_ISDIR(mode), sha)\<close>, followed by the
  object that the store holds under \<open>sha\<close>.
\<close>

datatype gitobj =
    Blob bytes
  | Tree "(int \<times> bool \<times> string \<times> gitobj) list"

type_synonym entry = "int \<times> bool \<times> string \<times> gitobj"

definition entry_key :: "entry \<Rightarrow> int \<times> bool \<times> string" where
  "entry_key e = (case e of (ofs, isdir, sha, child) \<Rightarrow> (ofs, isdir, sha))"

text \<open>
  Modelled from the spec: \<open>cp().join(hex)\<close> is part of bup.git, which is not among the
  sources.  The spec describes it as the streaming read of a blob concatenation
  (\<open>join(hash) \<rightarrow> iterator of byte chunks\<close>): a blob yields its content, a tree yields
  the chunks of its entries in order.
\<close>

fun join :: "gitobj \<Rightarrow> bytes list" where
  "join (Blob b) = [b]"
| "join (Tree es) = concat (map (\<lambda>(ofs, isdir, sha, child). join child) es)"

text \<open>\<open>''.join(cp(repo_dir).join(hash.encode('hex')))\<close>\<close>

definition joined :: "gitobj \<Rightarrow> bytes" where
  "joined obj = concat (join obj)"

text \<open>\<open>_treeget\<close> followed by the comprehension and the assertion of \<open>_tree_decode\<close>:
  the object must be a tree, and the decoded list must equal its sorted copy, which for
  tuples is the lexicographic order on \<open>(ofs, isdir, sha)\<close>.\<close>

definition tree_decode :: "gitobj \<Rightarrow> error + entry list" where
  "tree_decode obj =
     (case obj of
        Blob b \<Rightarrow> Inl AssertionError
      | Tree es \<Rightarrow> if sorted (map entry_key es) then Inr es else Inl AssertionError)"

definition chunk_len :: "gitobj \<Rightarrow> int" where
  "chunk_len obj = sum_list (map (\<lambda>b. int (length b)) (join obj))"

function last_chunk_info :: "gitobj \<Rightarrow> error + (int \<times> int)" where
  "last_chunk_info obj =
     (case tree_decode obj of
        Inl e \<Rightarrow> Inl e
      | Inr tree \<Rightarrow>
          if tree = [] then Inl AssertionError
          else (case last tree of (ofs, isdir, sha, child) \<Rightarrow>
                  if isdir then
                    (case last_chunk_info child of
                       Inl e \<Rightarrow> Inl e
                     | Inr (subofs, sublen) \<Rightarrow> Inr (ofs + subofs, sublen))
                  else Inr (ofs, chunk_len child)))"
  by pat_completeness auto

lemma tree_decode_Inr: "tree_decode obj = Inr tree \<Longrightarrow> obj = Tree tree"
  by (auto simp: tree_decode_def split: gitobj.splits if_splits)

lemma entry_size: "(ofs, isdir, sha, child) \<in> set es \<Longrightarrow> size child < size (Tree es)"
  by (induction es) auto

lemma last_entry_size:
  "es \<noteq> [] \<Longrightarrow> last es = (ofs, isdir, sha, child) \<Longrightarrow> size child < size (Tree es)"
  using entry_size [of ofs isdir sha child es] last_in_set [of es] by simp

termination last_chunk_info
  apply (relation "measure size")
   apply simp
  apply (auto dest!: tree_decode_Inr)
  subgoal for tree ofs sha child
    using last_entry_size [of tree ofs True sha child] by simp
  done

declare last_chunk_info.simps [simp del]

definition total_size :: "gitobj \<Rightarrow> error + int" where
  "total_size obj =
     (case last_chunk_info obj of
        Inl e \<Rightarrow> Inl e
      | Inr (lastofs, lastsize) \<Rightarrow> Inr (lastofs + lastsize))"

text \<open>
  A generator is modelled by what it will yield: the list of values, and the exception
  that ends it, if one does.  A generator is lazy, so an exception raised inside it
  reaches the caller at the \<open>next\<close> that runs into it, after the values before it.
\<close>

type_synonym chunks = "bytes list \<times> error option"

text \<open>The first loop of \<open>_chunkiter\<close>: the index at which the loop breaks.  The loop
  variable is unbound when the tree is empty; \<open>chunkiter\<close> checks that before.\<close>

function find_first :: "nat \<Rightarrow> entry list \<Rightarrow> int \<Rightarrow> nat" where
  "find_first i tree startofs =
     (if i + 1 \<ge> length tree \<or> fst (tree ! (i + 1)) > startofs then i
      else find_first (i + 1) tree startofs)"
  by pat_completeness auto
termination
  by (relation "measure (\<lambda>(i, tree, startofs). length tree - i)") auto

declare find_first.simps [simp del]

text \<open>\<open>for b in g: yield b\<close>, followed by the rest of the enclosing generator.\<close>

fun yield_from :: "chunks \<Rightarrow> chunks \<Rightarrow> chunks" where
  "yield_from (bs, None) rest = (bs @ fst rest, snd rest)"
| "yield_from (bs, Some e) rest = (bs, Some e)"

text \<open>
  \<open>_chunkiter\<close>.  The second loop runs over \<open>tree[first:]\<close>; each entry yields either
  the chunks of the generator of its sub-tree or one string, the blob from \<open>skipmore\<close> on.
\<close>

function chunkiter :: "gitobj \<Rightarrow> int \<Rightarrow> chunks" where
  "chunkiter obj startofs =
     (if \<not> startofs \<ge> 0 then ([], Some AssertionError)
      else (case tree_decode obj of
              Inl e \<Rightarrow> ([], Some e)
            | Inr tree \<Rightarrow>
                if tree = [] then ([], Some UnboundLocalError)
                else
                  foldr yield_from
                    (map (\<lambda>(ofs, isdir, sha, child).
                            let skipmore = startofs - ofs;
                                skipmore = (if skipmore < 0 then 0 else skipmore)
                            in if isdir then chunkiter child skipmore
                               else ([drop (nat skipmore) (joined child)], None))
                       (drop (find_first 0 tree startofs) tree))
                    ([], None)))"
  by pat_completeness auto
termination
proof (relation "measure (\<lambda>(obj, startofs). size obj)", goal_cases)
  case 1
  show ?case by simp
next
  case (2 obj startofs tree x ofs y isdir z sha child skipmore skipmore')
  from 2 have "(ofs, isdir, sha, child) \<in> set tree"
    using in_set_dropD [of x "find_first 0 tree startofs" tree] by simp
  moreover from 2 have "obj = Tree tree" by (simp add: tree_decode_Inr)
  ultimately show ?case using entry_size [of ofs isdir sha child tree] by simp
qed

declare chunkiter.simps [simp del]

text \<open>Python slices \<open>s[i:]\<close> and \<open>s[:j]\<close>; a negative index counts from the end.\<close>

definition py_from :: "bytes \<Rightarrow> int \<Rightarrow> bytes" where
  "py_from s i = (if i \<ge> 0 then drop (nat i) s else drop (nat (int (length s) + i)) s)"

definition py_upto :: "bytes \<Rightarrow> int \<Rightarrow> bytes" where
  "py_upto s j = (if j \<ge> 0 then take (nat j) s else take (nat (int (length s) + j)) s)"

record ChunkReader =
  cr_it :: "chunks option"
  cr_blob :: "bytes option"
  cr_ofs :: int

text \<open>The truth value of \<open>self.blob\<close>: \<open>None\<close> and the empty string are false.\<close>

definition truthy :: "bytes option \<Rightarrow> bool" where
  "truthy blob = (case blob of None \<Rightarrow> False | Some s \<Rightarrow> s \<noteq> [])"

definition ChunkReader_init :: "gitobj \<Rightarrow> bool \<Rightarrow> int \<Rightarrow> ChunkReader" where
  "ChunkReader_init hash isdir startofs =
     (if isdir then
        \<lparr>cr_it = Some (chunkiter hash startofs), cr_blob = None, cr_ofs = startofs\<rparr>
      else
        \<lparr>cr_it = None, cr_blob = Some (py_from (joined hash) startofs), cr_ofs = startofs\<rparr>)"

text \<open>The first statement of the loop body of \<open>_ChunkReader.next\<close>:
  \<open>if self.it and not self.blob: try: self.blob = next(self.it) except StopIteration: self.it = None\<close>.\<close>

definition fetch :: "chunks option \<Rightarrow> bytes option \<Rightarrow> error + (chunks option \<times> bytes option)" where
  "fetch it blob =
     (case it of
        None \<Rightarrow> Inr (it, blob)
      | Some g \<Rightarrow>
          if truthy blob then Inr (it, blob)
          else (case g of
                  (b # bs, e) \<Rightarrow> Inr (Some (bs, e), Some b)
                | ([], None) \<Rightarrow> Inr (None, blob)
                | ([], Some e) \<Rightarrow> Inl e))"

function next_loop ::
  "int \<Rightarrow> bytes \<Rightarrow> chunks option \<Rightarrow> bytes option \<Rightarrow> error + (bytes \<times> chunks option \<times> bytes option)"
where
  "next_loop sz out it blob =
     (if \<not> int (length out) < sz then Inr (out, it, blob)
      else (case fetch it blob of
              Inl e \<Rightarrow> Inl e
            | Inr (it1, blob1) \<Rightarrow>
                let want = sz - int (length out);
                    out1 = (if truthy blob1 then out @ py_upto (the blob1) want else out);
                    blob2 = (if truthy blob1 then Some (py_from (the blob1) want) else blob1)
                in if it1 = None then Inr (out1, it1, blob2)
                   else next_loop sz out1 it1 blob2))"
  by pat_completeness auto
termination
proof (relation "measures [\<lambda>(sz, out, it, blob). (case it of None \<Rightarrow> 0 | Some (cs, e) \<Rightarrow> length cs),
                           \<lambda>(sz, out, it, blob). nat (sz - int (length out))]", goal_cases)
  case 1
  show ?case by simp
next
  case (2 sz out it blob x it1 blob1 want out1 blob2)
  show ?case
  proof (cases "truthy blob")
    case True
    with 2 have same: "it1 = it" "blob1 = blob"
      by (auto simp: fetch_def split: option.splits)
    from True obtain s where s: "blob = Some s" "s \<noteq> []"
      by (auto simp: truthy_def split: option.splits)
    from 2 have "0 < want" by simp
    with s have "py_upto s want \<noteq> []" by (simp add: py_upto_def)
    with 2 same s True have "length out < length out1" by simp
    with 2 same show ?thesis by auto
  next
    case False
    with 2 obtain b bs e where "it = Some (b # bs, e)" "it1 = Some (bs, e)"
      by (auto simp: fetch_def split: option.splits list.splits prod.splits)
    then show ?thesis by simp
  qed
qed

declare next_loop.simps [simp del]

definition ChunkReader_next :: "ChunkReader \<Rightarrow> int \<Rightarrow> error + (bytes \<times> ChunkReader)" where
  "ChunkReader_next cr sz =
     (case next_loop sz [] (cr_it cr) (cr_blob cr) of
        Inl e \<Rightarrow> Inl e
      | Inr (out, it, blob) \<Rightarrow>
          Inr (out, \<lparr>cr_it = it, cr_blob = blob, cr_ofs = cr_ofs cr + int (length out)\<rparr>))"

record FileReader =
  fr_hash :: gitobj
  fr_ofs :: int
  fr_size :: int
  fr_isdir :: bool
  fr_reader :: "ChunkReader option"

definition FileReader_init :: "gitobj \<Rightarrow> int \<Rightarrow> bool \<Rightarrow> FileReader" where
  "FileReader_init hash sz isdir =
     \<lparr>fr_hash = hash, fr_ofs = 0, fr_size = sz, fr_isdir = isdir, fr_reader = None\<rparr>"

definition seek :: "FileReader \<Rightarrow> int \<Rightarrow> FileReader" where
  "seek self ofs =
     (if ofs > fr_size self then self\<lparr>fr_ofs := fr_size self\<rparr>
      else if ofs < 0 then self\<lparr>fr_ofs := 0\<rparr>
      else self\<lparr>fr_ofs := ofs\<rparr>)"

definition tell :: "FileReader \<Rightarrow> int" where
  "tell self = fr_ofs self"

text \<open>\<open>read\<close> returns the buffer or the exception, and the reader as it is left.\<close>

definition read :: "FileReader \<Rightarrow> int \<Rightarrow> (error + bytes) \<times> FileReader" where
  "read self count =
     (let count = (if count < 0 then fr_size self - fr_ofs self else count);
          reader = (case fr_reader self of
                      None \<Rightarrow> ChunkReader_init (fr_hash self) (fr_isdir self) (fr_ofs self)
                    | Some r \<Rightarrow>
                        if cr_ofs r \<noteq> fr_ofs self
                        then ChunkReader_init (fr_hash self) (fr_isdir self) (fr_ofs self)
                        else r)
      in (case ChunkReader_next reader count of
            Inl e \<Rightarrow> (Inl e, self\<lparr>fr_reader := None\<rparr>)
          | Inr (buf, reader') \<Rightarrow>
              (Inr buf, self\<lparr>fr_reader := Some reader', fr_ofs := fr_ofs self + int (length buf)\<rparr>)))"

text \<open>\<open>git.BUP_NORMAL\<close> and \<open>git.BUP_CHUNKED\<close>.\<close>

datatype bupmode = BUP_NORMAL | BUP_CHUNKED

text \<open>
  A \<open>File\<close> node keeps a reference to its \<open>_FileReader\<close>; two calls of \<open>open\<close> can
  return the same object.  The readers therefore live in a heap, a list addressed by
  position, and \<open>f_filereader\<close> holds the address.
\<close>

record File =
  f_hash :: gitobj
  f_bupmode :: bupmode
  f_cached_size :: "int option"
  f_filereader :: "nat option"

type_synonym heap = "FileReader list"

definition File_init :: "gitobj \<Rightarrow> bupmode \<Rightarrow> File" where
  "File_init hash bupmode =
     \<lparr>f_hash = hash, f_bupmode = bupmode, f_cached_size = None, f_filereader = None\<rparr>"

definition File_size :: "File \<Rightarrow> (error + int) \<times> File" where
  "File_size self =
     (case f_cached_size self of
        Some s \<Rightarrow> (Inr s, self)
      | None \<Rightarrow>
          (case (if f_bupmode self = BUP_CHUNKED then total_size (f_hash self)
                 else Inr (chunk_len (f_hash self))) of
             Inl e \<Rightarrow> (Inl e, self)
           | Inr s \<Rightarrow> (Inr s, self\<lparr>f_cached_size := Some s\<rparr>)))"

definition File_open :: "File \<Rightarrow> heap \<Rightarrow> (error + nat) \<times> File \<times> heap" where
  "File_open self h =
     (case f_filereader self of
        Some r \<Rightarrow> (Inr r, self, h[r := seek (h ! r) 0])
      | None \<Rightarrow>
          (case File_size self of
             (Inl e, self1) \<Rightarrow> (Inl e, self1, h)
           | (Inr s, self1) \<Rightarrow>
               let r = length h;
                   h1 = h @ [FileReader_init (f_hash self1) s (f_bupmode self1 = BUP_CHUNKED)]
               in (Inr r, self1\<lparr>f_filereader := Some r\<rparr>, h1[r := seek (h1 ! r) 0])))"

text \<open>
  The split trees that bup writes: a tree has at least one entry, the first entry is at
  offset 0, every entry is at the offset at which its data begins (the offsets of a
  sub-tree count from the start of that sub-tree), the offsets increase strictly, and an
  entry marked as a directory is such a tree again.
\<close>

fun offsets_ok :: "int \<Rightarrow> entry list \<Rightarrow> bool" where
  "offsets_ok acc [] = True"
| "offsets_ok acc ((ofs, isdir, sha, child) # es) =
     (ofs = acc \<and> (es = [] \<or> joined child \<noteq> []) \<and>
      offsets_ok (acc + int (length (joined child))) es)"

fun wf_split :: "gitobj \<Rightarrow> bool" where
  "wf_split (Blob b) = False"
| "wf_split (Tree es) =
     (es \<noteq> [] \<and> offsets_ok 0 es \<and>
      list_all (\<lambda>(ofs, isdir, sha, child). if isdir then wf_split child else True) es)"

text \<open>
  Two notions used in the proofs about \<open>chunkiter\<close>: the part of the tree that the first
  loop leaves for the second one, by recursion over the list, and the chunks that one
  iteration of the second loop yields.
\<close>

fun skip_to :: "entry list \<Rightarrow> int \<Rightarrow> entry list" where
  "skip_to [] s = []"
| "skip_to [e] s = [e]"
| "skip_to (e1 # e2 # es) s = (if fst e2 > s then e1 # e2 # es else skip_to (e2 # es) s)"

definition entry_chunks :: "int \<Rightarrow> entry \<Rightarrow> chunks" where
  "entry_chunks startofs e =
     (case e of (ofs, isdir, sha, child) \<Rightarrow>
        let skipmore = startofs - ofs;
            skipmore = (if skipmore < 0 then 0 else skipmore)
        in if isdir then chunkiter child skipmore
           else ([drop (nat skipmore) (joined child)], None))"

text \<open>What a chunk reader still has to deliver: the rest of its blob, then the chunks of
  its generator.\<close>

definition pending :: "chunks option \<Rightarrow> bytes option \<Rightarrow> bytes" where
  "pending it blob =
     (case blob of None \<Rightarrow> [] | Some b \<Rightarrow> b) @ (case it of None \<Rightarrow> [] | Some (cs, e) \<Rightarrow> concat cs)"

definition no_err :: "chunks option \<Rightarrow> bool" where
  "no_err it = (case it of None \<Rightarrow> True | Some (cs, e) \<Rightarrow> e = None)"

text \<open>The data of an entry, and the statement that the generator of an object yields,
  from every offset on, the data of the object from there, and ends without an exception.\<close>

definition entry_data :: "entry \<Rightarrow> bytes" where
  "entry_data e = (case e of (ofs, isdir, sha, child) \<Rightarrow> joined child)"

definition delivers :: "gitobj \<Rightarrow> bool" where
  "delivers obj =
     (\<forall>s\<ge>0. snd (chunkiter obj s) = None \<and>
            concat (fst (chunkiter obj s)) = drop (nat s) (joined obj))"

definition dirs_deliver :: "entry list \<Rightarrow> bool" where
  "dirs_deliver es = (\<forall>e\<in>set es. fst (snd e) \<longrightarrow> delivers (snd (snd (snd e))))"

text \<open>
  The states that readers and files go through.  A chunk reader at offset \<open>cr_ofs\<close> of
  some content still has to deliver the content from that offset on.  A file reader knows
  the length of its content as its size, its offset lies within the content, a chunked
  one reads a well-formed split tree, and its chunk reader, if it has one, is in such a
  state.  A file has cached the true size, if any, and its reader, if any, is on the heap
  and reads the object of the file.
\<close>

definition reader_inv :: "bytes \<Rightarrow> ChunkReader \<Rightarrow> bool" where
  "reader_inv content r =
     (0 \<le> cr_ofs r \<and> no_err (cr_it r) \<and>
      pending (cr_it r) (cr_blob r) = drop (nat (cr_ofs r)) content)"

definition fr_inv :: "FileReader \<Rightarrow> bool" where
  "fr_inv fr =
     (fr_size fr = int (length (joined (fr_hash fr))) \<and>
      0 \<le> fr_ofs fr \<and> fr_ofs fr \<le> fr_size fr \<and>
      (if fr_isdir fr then wf_split (fr_hash fr) else True) \<and>
      (case fr_reader fr of None \<Rightarrow> True | Some r \<Rightarrow> reader_inv (joined (fr_hash fr)) r))"

definition file_inv :: "File \<Rightarrow> heap \<Rightarrow> bool" where
  "file_inv f h =
     ((if f_bupmode f = BUP_CHUNKED then wf_split (f_hash f) else True) \<and>
      (case f_cached_size f of None \<Rightarrow> True | Some s \<Rightarrow> s = int (length (joined (f_hash f)))) \<and>
      (case f_filereader f of
         None \<Rightarrow> True
       | Some r \<Rightarrow> r < length h \<and> fr_inv (h ! r) \<and> fr_hash (h ! r) = f_hash f \<and>
                   fr_isdir (h ! r) = (f_bupmode f = BUP_CHUNKED)))"

text \<open>A chunked file of ten bytes in three blobs, two of them under a sub-tree, and a
  plain file of five bytes.\<close>

definition example_tree :: gitobj where
  "example_tree =
     Tree [(0, False, ''a1'', Blob ''hello''),
           (5, True, ''b2'', Tree [(0, False, ''c3'', Blob ''wor''), (3, False, ''d4'', Blob ''ld'')])]"

definition example_file :: File where
  "example_file = File_init example_tree BUP_CHUNKED"

definition example_reader :: FileReader where
  "example_reader = FileReader_init (Blob ''hello'') 5 False"

section \<open>The node tree and path resolution (lib/bup/vfs.py)\<close>

text \<open>
  The classes of nodes.  For path resolution three things matter: a \<open>Symlink\<close> (or
  \<open>FakeSymlink\<close>) overrides \<open>_lresolve\<close> and has a target, \<open>fs_top\<close> asks whether the parent
  is a \<open>CommitList\<close>, and every other node answers \<open>sub\<close> from the dictionary \<open>_subs\<close> that
  its \<open>_mksubs\<close> fills (for a \<open>File\<close> that dictionary is empty).
\<close>

datatype nodeclass =
  RefList_class | CommitDir_class | CommitList_class | BranchList_class | TagDir_class |
  Dir_class | File_class

text \<open>
  The materialised tree: a node other than a symlink with its class and its \<open>_subs\<close>, as
  an association list, or a symlink with what \<open>readlink()\<close> returns.  The root has no
  parent, and the parent of a child is the node that holds it.  A node is referred to by
  the names on the way from it up to the root, so that \<open>self.parent\<close> is the rest of the
  list and the root is the empty list.
\<close>

datatype vnode =
    Node nodeclass "(string \<times> vnode) list"
  | Symlink string

type_synonym nref = "string list"

fun node_at :: "vnode \<Rightarrow> string list \<Rightarrow> vnode option" where
  "node_at t [] = Some t"
| "node_at (Node cls subs) (name # names) =
     (case map_of subs name of None \<Rightarrow> None | Some child \<Rightarrow> node_at child names)"
| "node_at (Symlink target) (name # names) = None"

text \<open>The object behind a reference; the path from the root is the reversed reference.\<close>

definition node_of :: "vnode \<Rightarrow> nref \<Rightarrow> vnode option" where
  "node_of fs ref = node_at fs (rev ref)"

definition parent :: "nref \<Rightarrow> nref option" where
  "parent ref = (case ref of [] \<Rightarrow> None | name # up \<Rightarrow> Some up)"

definition is_CommitList :: "vnode option \<Rightarrow> bool" where
  "is_CommitList n = (case n of Some (Node CommitList_class subs) \<Rightarrow> True | _ \<Rightarrow> False)"

definition is_Symlink :: "vnode option \<Rightarrow> bool" where
  "is_Symlink n = (case n of Some (Symlink target) \<Rightarrow> True | _ \<Rightarrow> False)"

text \<open>\<open>readlink()\<close> of a symlink.\<close>

definition readlink :: "vnode \<Rightarrow> nref \<Rightarrow> string" where
  "readlink fs ref = (case node_of fs ref of Some (Symlink target) \<Rightarrow> target | _ \<Rightarrow> [])"

fun top :: "nref \<Rightarrow> nref" where
  "top [] = []"
| "top (name # up) = top up"

fun fs_top :: "vnode \<Rightarrow> nref \<Rightarrow> nref" where
  "fs_top fs [] = []"
| "fs_top fs (name # up) =
     (if \<not> is_CommitList (node_of fs up) then fs_top fs up else name # up)"

text \<open>\<open>sub\<close>: the child of that name, or \<open>NoSuchFile\<close>.\<close>

definition sub :: "vnode \<Rightarrow> nref \<Rightarrow> string \<Rightarrow> error + nref" where
  "sub fs ref name =
     (case node_of fs ref of
        Some (Node cls subs) \<Rightarrow>
          (case map_of subs name of None \<Rightarrow> Inl NoSuchFile | Some child \<Rightarrow> Inr (name # ref))
      | _ \<Rightarrow> Inl NoSuchFile)"

text \<open>\<open>re.split(r'/+', path)\<close>: the pieces between the runs of slashes, the empty pieces
  before a leading and after a trailing run included.\<close>

function split_slashes :: "string \<Rightarrow> string list" where
  "split_slashes s =
     (let pre = takeWhile (\<lambda>c. c \<noteq> CHR ''/'') s;
          rest = dropWhile (\<lambda>c. c \<noteq> CHR ''/'') s
      in if rest = [] then [pre]
         else pre # split_slashes (dropWhile (\<lambda>c. c = CHR ''/'') rest))"
  by pat_completeness auto
termination
proof (relation "measure length", goal_cases)
  case 1
  show ?case by simp
next
  case (2 s pre rest)
  then have "rest \<noteq> []" and "\<not> hd rest \<noteq> CHR ''/''"
    using hd_dropWhile [of "\<lambda>c. c \<noteq> CHR ''/''" s] by simp_all
  then obtain r where r: "rest = CHR ''/'' # r"
    by (cases rest) simp_all
  have "length (dropWhile (\<lambda>c. c = CHR ''/'') rest) \<le> length r"
    by (simp add: r length_dropWhile_le)
  moreover have "length rest \<le> length s"
    using 2 by (simp add: length_dropWhile_le)
  ultimately show ?case by (simp add: r)
qed

declare split_slashes.simps [simp del]

text \<open>The part of \<open>lresolve\<close> between the test for the empty path and the call of
  \<open>_lresolve\<close>: where the walk starts, and the segments of the path.\<close>

definition path_parts :: "string \<Rightarrow> string list" where
  "path_parts path =
     (let parts = split_slashes (if path = [] then ''.'' else path)
      in if last parts = [] then butlast parts @ [''.''] else parts)"

definition lresolve_start :: "vnode \<Rightarrow> nref \<Rightarrow> string \<Rightarrow> bool \<Rightarrow> nref \<times> string list" where
  "lresolve_start fs self path stay_inside_fs =
     (if hd path = CHR ''/'' then
        ((if stay_inside_fs then fs_top fs self else top self), path_parts (tl path))
      else (self, path_parts path))"

text \<open>
  \<open>_lresolve\<close>, \<open>Symlink.dereference\<close> and \<open>lresolve\<close> call each other, and a cycle of
  symlinks can keep them calling for ever.  Each gets a bound on the depth of the calls that
  it may make, and returns \<open>None\<close> when the bound is reached; otherwise it returns the node
  or the exception, and the value of the global counter \<open>_symrefs\<close> afterwards.  The
  first argument after the bound is the tree, the second the value of \<open>_symrefs\<close>.  The
  call \<open>x._lresolve(parts)\<close> runs \<open>Symlink._lresolve\<close> when \<open>x\<close> is a symlink and
  \<open>Node._lresolve\<close> otherwise.
\<close>

fun lresolve_parts :: "nat \<Rightarrow> vnode \<Rightarrow> int \<Rightarrow> nref \<Rightarrow> string list \<Rightarrow> ((error + nref) \<times> int) option"
  and dereference :: "nat \<Rightarrow> vnode \<Rightarrow> int \<Rightarrow> nref \<Rightarrow> ((error + nref) \<times> int) option"
  and lresolve :: "nat \<Rightarrow> vnode \<Rightarrow> int \<Rightarrow> nref \<Rightarrow> string \<Rightarrow> bool \<Rightarrow> ((error + nref) \<times> int) option"
where
  "lresolve_parts 0 fs symrefs self parts = None"
| "lresolve_parts (Suc n) fs symrefs self parts =
     (if is_Symlink (node_of fs self) then
        (case dereference n fs symrefs self of
           None \<Rightarrow> None
         | Some (Inl e, symrefs') \<Rightarrow> Some (Inl e, symrefs')
         | Some (Inr target, symrefs') \<Rightarrow> lresolve_parts n fs symrefs' target parts)
      else
        (case parts of
           [] \<Rightarrow> Some (Inr self, symrefs)
         | first # rest \<Rightarrow>
             if first = ''.'' then lresolve_parts n fs symrefs self rest
             else if first = ''..'' then
               (case parent self of
                  None \<Rightarrow> Some (Inl NoSuchFile, symrefs)
                | Some up \<Rightarrow> lresolve_parts n fs symrefs up rest)
             else if rest \<noteq> [] then
               (case sub fs self first of
                  Inl e \<Rightarrow> Some (Inl e, symrefs)
                | Inr child \<Rightarrow> lresolve_parts n fs symrefs child rest)
             else Some (sub fs self first, symrefs)))"
| "dereference 0 fs symrefs self = None"
| "dereference (Suc n) fs symrefs self =
     (if symrefs > 100 then Some (Inl TooManySymlinks, symrefs)
      else
        (case parent self of
           None \<Rightarrow> Some (Inl AttributeError, symrefs + 1 - 1)
         | Some up \<Rightarrow>
             (case lresolve n fs (symrefs + 1) up (readlink fs self) True of
                None \<Rightarrow> None
              | Some (res, symrefs') \<Rightarrow> Some (res, symrefs' - 1))))"
| "lresolve 0 fs symrefs self path stay_inside_fs = None"
| "lresolve (Suc n) fs symrefs self path stay_inside_fs =
     (if path = [] then Some (Inr self, symrefs)
      else (case lresolve_start fs self path stay_inside_fs of
              (start, parts) \<Rightarrow> lresolve_parts n fs symrefs start parts))"

text \<open>\<open>resolve\<close>: \<open>self.lresolve(path).lresolve('.')\<close>.\<close>

definition resolve :: "nat \<Rightarrow> vnode \<Rightarrow> int \<Rightarrow> nref \<Rightarrow> string \<Rightarrow> ((error + nref) \<times> int) option" where
  "resolve n fs symrefs self path =
     (case lresolve n fs symrefs self path False of
        None \<Rightarrow> None
      | Some (Inl e, symrefs') \<Rightarrow> Some (Inl e, symrefs')
      | Some (Inr node, symrefs') \<Rightarrow> lresolve n fs symrefs' node ''.'' False)"

text \<open>The tree of scenario 5: a directory \<open>a\<close> with two symlinks, \<open>b\<close> to \<open>c\<close> and \<open>c\<close> to
  \<open>/a/b\<close>; and a tree with a link to a directory and a link to a file.\<close>

definition cycle_tree :: vnode where
  "cycle_tree =
     Node RefList_class
       [(''a'', Node Dir_class [(''b'', Symlink ''c''), (''c'', Symlink ''/a/b'')])]"

definition links_tree :: vnode where
  "links_tree =
     Node RefList_class
       [(''a'', Node Dir_class
           [(''d'', Node Dir_class [(''f'', Node File_class [])]),
            (''l'', Symlink ''d''),
            (''m'', Symlink ''d/f'')])]"

text \<open>A directory with a link \<open>l\<close> whose target passes through \<open>l\<close> itself.\<close>

definition nested_tree :: vnode where
  "nested_tree = Node RefList_class [(''a'', Node Dir_class [(''l'', Symlink ''l/x'')])]"

section \<open>Materialising children: \<open>Dir._mksubs\<close> and \<open>BranchList._mksubs\<close> (lib/bup/vfs.py)\<close>

text \<open>\<open>stat.S_ISDIR\<close> and \<open>stat.S_ISLNK\<close>: the file type bits \<open>mode & 0o170000\<close> are
  \<open>0o040000\<close> for a directory and \<open>0o120000\<close> for a symbolic link.\<close>

definition S_ISDIR :: "int \<Rightarrow> bool" where
  "S_ISDIR mode = (mode AND 61440 = 16384)"

definition S_ISLNK :: "int \<Rightarrow> bool" where
  "S_ISLNK mode = (mode AND 61440 = 40960)"

text \<open>Modelled from the spec: \<open>GIT_MODE_FILE\<close> is a constant of bup.hashsplit, which is not
  among the sources; the spec calls it the mode of a regular file.  It is \<open>0o100644\<close>.\<close>

definition GIT_MODE_FILE :: int where
  "GIT_MODE_FILE = 33188"

text \<open>An entry of a tree object as \<open>git.tree_decode\<close> yields it: mode, name, hash.\<close>

type_synonym tree_entry = "int \<times> string \<times> string"

text \<open>What \<open>cp().get\<close> finds under the hash of a directory: a blob, a tree, or a commit,
  for which the name \<open>hash + ':'\<close> is looked up next.\<close>

datatype stored =
    StoredBlob
  | StoredTree "tree_entry list"
  | StoredCommit stored

text \<open>The nodes that \<open>_mksubs\<close> constructs, with the arguments of their constructors; the
  parent is always the directory itself.\<close>

datatype child =
    NewDir string int string
  | NewSymlink string string bupmode
  | NewFile string int string bupmode

record Dir_state =
  d_subs :: "(string \<times> child) list option"
  d_bupm :: "child option"

text \<open>
  The body of the loop of \<open>Dir._mksubs\<close> after the test for \<open>.bupm\<close>.  \<open>git.demangle_name\<close>
  is not among the sources, and the spec says of it only that it yields the display name
  and the bup mode; it is a parameter.
\<close>

definition make_child :: "(string \<Rightarrow> int \<Rightarrow> string \<times> bupmode) \<Rightarrow> tree_entry \<Rightarrow> string \<times> child" where
  "make_child demangle_name e =
     (case e of (mode, mangled_name, sha) \<Rightarrow>
        (case demangle_name mangled_name mode of (name, bupmode) \<Rightarrow>
           let mode = (if bupmode = BUP_CHUNKED then GIT_MODE_FILE else mode)
           in if S_ISDIR mode then (name, NewDir name mode sha)
              else if S_ISLNK mode then (name, NewSymlink name sha bupmode)
              else (name, NewFile name mode sha bupmode)))"

definition mksubs_step ::
  "(string \<Rightarrow> int \<Rightarrow> string \<times> bupmode) \<Rightarrow> tree_entry \<Rightarrow>
   (string \<times> child) list \<times> child option \<Rightarrow> (string \<times> child) list \<times> child option" where
  "mksubs_step demangle_name e st =
     (case e of (mode, mangled_name, sha) \<Rightarrow>
        if mangled_name = ''.bupm'' then
          (fst st, Some (NewFile mangled_name GIT_MODE_FILE sha
                           (if S_ISDIR mode then BUP_CHUNKED else BUP_NORMAL)))
        else
          (case make_child demangle_name e of (name, node) \<Rightarrow>
             (AList.update name node (fst st), snd st)))"

text \<open>\<open>Dir._mksubs\<close> returns nothing; the result is the exception that it raises, if any,
  and the directory as it is left.  The first statement sets \<open>_subs\<close> to the empty
  dictionary, and that stays when the assertion on the type of the object fails.\<close>

definition Dir_mksubs ::
  "(string \<Rightarrow> int \<Rightarrow> string \<times> bupmode) \<Rightarrow> stored \<Rightarrow> Dir_state \<Rightarrow> error option \<times> Dir_state" where
  "Dir_mksubs demangle_name obj self =
     (let self = self\<lparr>d_subs := Some []\<rparr>;
          obj = (case obj of StoredCommit tree \<Rightarrow> tree | _ \<Rightarrow> obj)
      in case obj of
           StoredTree entries \<Rightarrow>
             (case fold (mksubs_step demangle_name) entries ([], d_bupm self) of
                (subs, bupm) \<Rightarrow> (None, \<lparr>d_subs = Some subs, d_bupm = bupm\<rparr>))
         | _ \<Rightarrow> (Some AssertionError, self))"

text \<open>\<open>sub(name)\<close> and \<open>subs()\<close> of a directory.  Both call \<open>_mksubs\<close> first when \<open>_subs\<close> is
  \<open>None\<close>; \<open>subs()\<close> sorts the nodes, which have the same parent, by name.  Each returns
  its result or the exception, and the directory as it is afterwards.\<close>

definition materialise ::
  "(string \<Rightarrow> int \<Rightarrow> string \<times> bupmode) \<Rightarrow> stored \<Rightarrow> Dir_state \<Rightarrow> error option \<times> Dir_state" where
  "materialise demangle_name obj self =
     (if d_subs self = None then Dir_mksubs demangle_name obj self else (None, self))"

definition Dir_sub ::
  "(string \<Rightarrow> int \<Rightarrow> string \<times> bupmode) \<Rightarrow> stored \<Rightarrow> Dir_state \<Rightarrow> string \<Rightarrow>
   (error + child) \<times> Dir_state" where
  "Dir_sub demangle_name obj self name =
     (case materialise demangle_name obj self of
        (Some e, self') \<Rightarrow> (Inl e, self')
      | (None, self') \<Rightarrow>
          (case d_subs self' of
             None \<Rightarrow> (Inl AttributeError, self')
           | Some subs \<Rightarrow>
               (case map_of subs name of
                  None \<Rightarrow> (Inl NoSuchFile, self')
                | Some node \<Rightarrow> (Inr node, self'))))"

definition Dir_subs ::
  "(string \<Rightarrow> int \<Rightarrow> string \<times> bupmode) \<Rightarrow> stored \<Rightarrow> Dir_state \<Rightarrow>
   (error + child list) \<times> Dir_state" where
  "Dir_subs demangle_name obj self =
     (case materialise demangle_name obj self of
        (Some e, self') \<Rightarrow> (Inl e, self')
      | (None, self') \<Rightarrow>
          (case d_subs self' of
             None \<Rightarrow> (Inl AttributeError, self')
           | Some subs \<Rightarrow> (Inr (map snd (sort_key fst subs)), self')))"

text \<open>The entries that the loop of \<open>Dir._mksubs\<close> takes for the metadata stream.\<close>

definition is_bupm :: "tree_entry \<Rightarrow> bool" where
  "is_bupm e = (fst (snd e) = ''.bupm'')"

text \<open>An instance of the parameter for examples: the suffix \<open>.bup\<close> marks a chunked file.\<close>

definition example_demangle :: "string \<Rightarrow> int \<Rightarrow> string \<times> bupmode" where
  "example_demangle name mode =
     (if 4 \<le> length name \<and> drop (length name - 4) name = ''.bup''
      then (take (length name - 4) name, BUP_CHUNKED) else (name, BUP_NORMAL))"

definition example_entries :: "tree_entry list" where
  "example_entries =
     [(33188, ''.bupm'', ''h0''), (16384, ''big.bup'', ''h1''), (16384, ''dir'', ''h2''),
      (40960, ''lnk'', ''h3''), (33261, ''run'', ''h4'')]"

definition fresh_dir :: Dir_state where
  "fresh_dir = \<lparr>d_subs = None, d_bupm = None\<rparr>"



















section \<open>The driver of the garbage collection (cmd/bloom-gc-cmd.py)\<close>

text \<open>
  The driver calls services that are not part of it: the file system, the bloom filter, the
  walk over the objects of a ref, the clearing of the indexes, git, and the sweep.  Each
  of these calls either returns or raises, also when the user interrupts it
  (\<open>handle_ctrl_c\<close> turns the interrupt into an exception).  The calls are named, and
  which of them raise is the input \<open>raises\<close> of the model.
\<close>

datatype gc_call =
    Mkstemp | Bloom_create | Walk_objects
  | Clear_midxes | Clear_bloom | Reflog_expire | Sweep
  | Bloom_close | Unlink_bloom

datatype gc_error = Raised gc_call

text \<open>What the claims about the driver observe: whether the temporary file
  \<open>tmp-gc-*.bloom\<close> is on disk, and whether the bloom filter holds it open.\<close>

record bloom_file =
  on_disk :: bool
  held_open :: bool

definition no_bloom_file :: bloom_file where
  "no_bloom_file = \<lparr>on_disk = False, held_open = False\<rparr>"

text \<open>A call: the exception if it raises, else its effect on the file.\<close>

definition call :: "(gc_call \<Rightarrow> bool) \<Rightarrow> gc_call \<Rightarrow> (bloom_file \<Rightarrow> bloom_file) \<Rightarrow> bloom_file \<Rightarrow> gc_error + bloom_file" where
  "call raises c effect st = (if raises c then Inl (Raised c) else Inr (effect st))"

text \<open>Statements one after the other: the first exception ends the sequence, and the
  file stays as the statements before it left it.\<close>

fun run :: "(gc_call \<Rightarrow> bool) \<Rightarrow> (gc_call \<times> (bloom_file \<Rightarrow> bloom_file)) list \<Rightarrow> bloom_file \<Rightarrow> gc_error option \<times> bloom_file" where
  "run raises [] st = (None, st)"
| "run raises ((c, effect) # rest) st =
     (case call raises c effect st of
        Inl e \<Rightarrow> (Some e, st)
      | Inr st' \<Rightarrow> run raises rest st')"

text \<open>\<open>find_live_objects\<close>: \<open>mkstemp\<close> creates the file (its descriptor is closed at once),
  \<open>bloom.create\<close> opens it, and the loop over the refs walks the objects and adds them.\<close>

definition find_live_objects :: "(gc_call \<Rightarrow> bool) \<Rightarrow> bloom_file \<Rightarrow> gc_error option \<times> bloom_file" where
  "find_live_objects raises st =
     run raises
       [(Mkstemp, \<lambda>st. st\<lparr>on_disk := True\<rparr>),
        (Bloom_create, \<lambda>st. st\<lparr>held_open := True\<rparr>),
        (Walk_objects, \<lambda>st. st)] st"

text \<open>The body of the \<open>try\<close> statement and its \<open>finally\<close> clause.\<close>

definition try_body :: "(gc_call \<Rightarrow> bool) \<Rightarrow> bloom_file \<Rightarrow> gc_error option \<times> bloom_file" where
  "try_body raises st =
     run raises
       [(Clear_midxes, \<lambda>st. st), (Clear_bloom, \<lambda>st. st), (Reflog_expire, \<lambda>st. st),
        (Sweep, \<lambda>st. st)] st"

definition finally_clause :: "(gc_call \<Rightarrow> bool) \<Rightarrow> bloom_file \<Rightarrow> gc_error option \<times> bloom_file" where
  "finally_clause raises st =
     run raises
       [(Bloom_close, \<lambda>st. st\<lparr>held_open := False\<rparr>),
        (Unlink_bloom, \<lambda>st. st\<lparr>on_disk := False\<rparr>)] st"

text \<open>
  The driver from \<open>count_objects\<close> on, for a repository with \<open>existing_count\<close> objects.
  \<open>find_live_objects\<close> is called before the \<open>try\<close> statement.  An exception of the
  \<open>finally\<close> clause replaces the one of the body.  The result is the exception with which
  the process ends, if any, and the file at that moment.
\<close>

definition gc_main :: "(gc_call \<Rightarrow> bool) \<Rightarrow> nat \<Rightarrow> gc_error option \<times> bloom_file" where
  "gc_main raises existing_count =
     (if existing_count = 0 then (None, no_bloom_file)
      else
        (case find_live_objects raises no_bloom_file of
           (Some e, st) \<Rightarrow> (Some e, st)
         | (None, st) \<Rightarrow>
             (case try_body raises st of
                (body_error, st') \<Rightarrow>
                  (case finally_clause raises st' of
                     (Some e, st'') \<Rightarrow> (Some e, st'')
                   | (None, st'') \<Rightarrow> (body_error, st'')))))"

section \<open>Proofs: chunked files and the file reader\<close>

lemma joined_Tree: "joined (Tree es) = concat (map (\<lambda>(ofs, isdir, sha, child). joined child) es)"
  by (induction es) (auto simp: joined_def)

lemma offsets_ok_lower: "offsets_ok acc es \<Longrightarrow> e \<in> set es \<Longrightarrow> acc \<le> fst e"
proof (induction es arbitrary: acc)
  case Nil
  then show ?case by simp
next
  case (Cons x xs)
  obtain ofs isdir sha child where x: "x = (ofs, isdir, sha, child)" by (cases x)
  show ?case
  proof (cases "e = x")
    case True
    with Cons.prems x show ?thesis by simp
  next
    case False
    with Cons.prems have "e \<in> set xs" by simp
    moreover from Cons.prems x have "offsets_ok (acc + int (length (joined child))) xs" by simp
    ultimately have "acc + int (length (joined child)) \<le> fst e" by (rule Cons.IH [rotated])
    then show ?thesis by simp
  qed
qed

lemma offsets_ok_sorted: "offsets_ok acc es \<Longrightarrow> sorted (map entry_key es)"
proof (induction es arbitrary: acc)
  case Nil
  then show ?case by simp
next
  case (Cons x xs)
  obtain ofs isdir sha child where x: "x = (ofs, isdir, sha, child)" by (cases x)
  from Cons.prems x have tl: "offsets_ok (acc + int (length (joined child))) xs"
    and ofs: "ofs = acc" and ne: "xs = [] \<or> joined child \<noteq> []" by simp_all
  have "entry_key x \<le> entry_key e" if "e \<in> set xs" for e
  proof -
    from that have "xs \<noteq> []" by auto
    with ne have "0 < int (length (joined child))" by simp
    moreover from tl that have "acc + int (length (joined child)) \<le> fst e"
      by (rule offsets_ok_lower)
    ultimately have "ofs < fst e" using ofs by linarith
    then show ?thesis
      by (cases e) (simp add: entry_key_def x less_eq_prod_def)
  qed
  with Cons.IH [OF tl] show ?case by auto
qed

lemma wf_split_decode: "wf_split (Tree es) \<Longrightarrow> tree_decode (Tree es) = Inr es"
  using offsets_ok_sorted [of 0 es] by (simp add: tree_decode_def)

lemma find_first_skip:
  "i < length tree \<Longrightarrow> drop (find_first i tree s) tree = skip_to (drop i tree) s"
proof (induction i tree s rule: find_first.induct)
  case (1 i tree s)
  show ?case
  proof (cases "i + 1 \<ge> length tree")
    case True
    with "1.prems" have "drop i tree = [tree ! i]"
      by (metis Cons_nth_drop_Suc Suc_eq_plus1 drop_all)
    moreover from True have "find_first i tree s = i"
      by (subst find_first.simps) simp
    ultimately show ?thesis by simp
  next
    case False
    then have lt: "i + 1 < length tree" by simp
    then have d: "drop i tree = tree ! i # tree ! (i + 1) # drop (i + 2) tree"
      using "1.prems" by (metis Cons_nth_drop_Suc Suc_eq_plus1 add_2_eq_Suc')
    show ?thesis
    proof (cases "fst (tree ! (i + 1)) > s")
      case True
      then have "find_first i tree s = i"
        by (subst find_first.simps) simp
      with d True show ?thesis by simp
    next
      case nb: False
      with False have "find_first i tree s = find_first (i + 1) tree s"
        by (subst find_first.simps) simp
      moreover have "drop (find_first (i + 1) tree s) tree = skip_to (drop (i + 1) tree) s"
        using "1.IH" False nb lt by simp
      moreover have "drop (i + 1) tree = tree ! (i + 1) # drop (i + 2) tree"
        using lt by (metis Cons_nth_drop_Suc Suc_eq_plus1 add_2_eq_Suc')
      ultimately show ?thesis using d nb by simp
    qed
  qed
qed

lemma chunkiter_Tree:
  "wf_split (Tree es) \<Longrightarrow> 0 \<le> s \<Longrightarrow>
   chunkiter (Tree es) s = foldr yield_from (map (entry_chunks s) (skip_to es s)) ([], None)"
proof -
  assume wf: "wf_split (Tree es)" and s: "0 \<le> s"
  then have ne: "es \<noteq> []" by simp
  have lam: "(\<lambda>(ofs, isdir, sha, child).
                let skipmore = s - ofs; skipmore = (if skipmore < 0 then 0 else skipmore)
                in if isdir then chunkiter child skipmore
                   else ([drop (nat skipmore) (joined child)], None)) = entry_chunks s"
    by (rule ext) (simp add: entry_chunks_def split: prod.splits)
  from ne have "drop (find_first 0 es s) es = skip_to es s"
    using find_first_skip [of 0 es s] by simp
  with wf s ne show ?thesis
    by (subst chunkiter.simps, subst lam) (simp add: wf_split_decode del: wf_split.simps)
qed

lemma joined_Tree_data: "joined (Tree es) = concat (map entry_data es)"
  by (induction es) (auto simp: joined_def entry_data_def)

lemma yield_from_ok: "snd a = None \<Longrightarrow> yield_from a r = (fst a @ fst r, snd r)"
  by (cases a) simp

lemma entry_chunks_ok:
  assumes "fst (snd e) \<longrightarrow> delivers (snd (snd (snd e)))"
  shows "snd (entry_chunks s e) = None \<and>
         concat (fst (entry_chunks s e)) = drop (nat (s - fst e)) (entry_data e)"
proof -
  obtain ofs isdir sha child where e: "e = (ofs, isdir, sha, child)" by (cases e)
  have n: "nat (if s - ofs < 0 then 0 else s - ofs) = nat (s - ofs)" by simp
  show ?thesis
  proof (cases isdir)
    case True
    with assms e have "delivers child" by simp
    then have "snd (chunkiter child (if s - ofs < 0 then 0 else s - ofs)) = None \<and>
               concat (fst (chunkiter child (if s - ofs < 0 then 0 else s - ofs))) =
               drop (nat (if s - ofs < 0 then 0 else s - ofs)) (joined child)"
      unfolding delivers_def by simp
    with True e show ?thesis
      by (simp add: entry_chunks_def entry_data_def Let_def n)
  next
    case False
    with e show ?thesis
      by (simp add: entry_chunks_def entry_data_def Let_def n)
  qed
qed

lemma run_full:
  "dirs_deliver es \<Longrightarrow> \<forall>e\<in>set es. s \<le> fst e \<Longrightarrow>
   snd (foldr yield_from (map (entry_chunks s) es) ([], None)) = None \<and>
   concat (fst (foldr yield_from (map (entry_chunks s) es) ([], None))) = concat (map entry_data es)"
proof (induction es)
  case Nil
  then show ?case by simp
next
  case (Cons e es)
  from Cons.prems have d: "fst (snd e) \<longrightarrow> delivers (snd (snd (snd e)))" and ds: "dirs_deliver es"
    by (simp_all add: dirs_deliver_def)
  from Cons.prems have le: "s \<le> fst e" by simp
  from entry_chunks_ok [OF d, of s] le
  have ec: "snd (entry_chunks s e) = None" "concat (fst (entry_chunks s e)) = entry_data e"
    by simp_all
  from Cons.IH [OF ds] Cons.prems(2)
  have ih: "snd (foldr yield_from (map (entry_chunks s) es) ([], None)) = None"
    "concat (fst (foldr yield_from (map (entry_chunks s) es) ([], None))) = concat (map entry_data es)"
    by simp_all
  show ?case
    by (simp add: yield_from_ok [OF ec(1)] ec ih)
qed

lemma offsets_ok_lower_all: "offsets_ok acc es \<Longrightarrow> \<forall>e\<in>set es. acc \<le> fst e"
  using offsets_ok_lower by blast

lemma run_skip:
  "offsets_ok acc es \<Longrightarrow> es \<noteq> [] \<Longrightarrow> acc \<le> s \<Longrightarrow> dirs_deliver es \<Longrightarrow>
   snd (foldr yield_from (map (entry_chunks s) (skip_to es s)) ([], None)) = None \<and>
   concat (fst (foldr yield_from (map (entry_chunks s) (skip_to es s)) ([], None))) =
     drop (nat (s - acc)) (concat (map entry_data es))"
proof (induction es s arbitrary: acc rule: skip_to.induct)
  case (1 s)
  then show ?case by simp
next
  case (2 e s)
  from "2.prems" have d: "fst (snd e) \<longrightarrow> delivers (snd (snd (snd e)))"
    by (simp add: dirs_deliver_def)
  from "2.prems" have "fst e = acc" by (cases e) simp
  with entry_chunks_ok [OF d, of s] show ?case
    by (simp add: yield_from_ok)
next
  case (3 e1 e2 es s)
  obtain ofs isdir sha child where e1: "e1 = (ofs, isdir, sha, child)" by (cases e1)
  from "3.prems" e1 have ofs: "ofs = acc" and ne: "joined child \<noteq> []"
    and tl: "offsets_ok (acc + int (length (joined child))) (e2 # es)" by simp_all
  from tl have f2: "fst e2 = acc + int (length (joined child))" by (cases e2) simp
  from "3.prems" have d1: "fst (snd e1) \<longrightarrow> delivers (snd (snd (snd e1)))"
    and ds: "dirs_deliver (e2 # es)" by (simp_all add: dirs_deliver_def)
  have data1: "entry_data e1 = joined child" by (simp add: e1 entry_data_def)
  show ?case
  proof (cases "fst e2 > s")
    case True
    from tl have "\<forall>e\<in>set (e2 # es). acc + int (length (joined child)) \<le> fst e"
      by (rule offsets_ok_lower_all)
    with True f2 have "\<forall>e\<in>set (e2 # es). s \<le> fst e" by auto
    from run_full [OF ds this]
    have rest: "snd (foldr yield_from (map (entry_chunks s) (e2 # es)) ([], None)) = None"
      "concat (fst (foldr yield_from (map (entry_chunks s) (e2 # es)) ([], None))) =
         concat (map entry_data (e2 # es))" by simp_all
    from entry_chunks_ok [OF d1, of s] e1 ofs
    have ec: "snd (entry_chunks s e1) = None"
      "concat (fst (entry_chunks s e1)) = drop (nat (s - acc)) (entry_data e1)" by simp_all
    from True f2 "3.prems" have "nat (s - acc) \<le> length (joined child)" by simp
    then have "drop (nat (s - acc)) (joined child @ concat (map entry_data (e2 # es))) =
               drop (nat (s - acc)) (joined child) @ concat (map entry_data (e2 # es))"
      by simp
    with True rest ec data1 show ?thesis
      using yield_from_ok [OF ec(1)] by simp
  next
    case False
    then have le: "acc + int (length (joined child)) \<le> s" using f2 by simp
    from "3.IH" [OF False tl _ le ds]
    have ih: "snd (foldr yield_from (map (entry_chunks s) (skip_to (e2 # es) s)) ([], None)) = None"
      "concat (fst (foldr yield_from (map (entry_chunks s) (skip_to (e2 # es) s)) ([], None))) =
         drop (nat (s - (acc + int (length (joined child))))) (concat (map entry_data (e2 # es)))"
      by simp_all
    from le "3.prems" have "nat (s - acc) = length (joined child) + nat (s - (acc + int (length (joined child))))"
      by simp
    then have "drop (nat (s - acc)) (joined child @ concat (map entry_data (e2 # es))) =
               drop (nat (s - (acc + int (length (joined child))))) (concat (map entry_data (e2 # es)))"
      by simp
    with False ih data1 show ?thesis by simp
  qed
qed

lemma wf_split_dir_child:
  "wf_split (Tree es) \<Longrightarrow> e \<in> set es \<Longrightarrow> fst (snd e) \<Longrightarrow> wf_split (snd (snd (snd e)))"
  by (cases e) (auto simp: list_all_iff)

lemma wf_split_delivers: "wf_split obj \<Longrightarrow> delivers obj"
proof (induction obj rule: measure_induct_rule [of size])
  case (less obj)
  from less.prems obtain es where obj: "obj = Tree es" by (cases obj) simp_all
  have dd: "dirs_deliver es"
    unfolding dirs_deliver_def
  proof (intro ballI impI)
    fix e assume e: "e \<in> set es" and dir: "fst (snd e)"
    obtain ofs isdir sha child where eq: "e = (ofs, isdir, sha, child)" by (cases e)
    from less.prems obj e dir have "wf_split (snd (snd (snd e)))"
      using wf_split_dir_child by blast
    moreover from e eq have "size child < size obj"
      using entry_size obj by blast
    ultimately show "delivers (snd (snd (snd e)))"
      using less.IH eq by simp
  qed
  from less.prems obj have ok: "offsets_ok 0 es" and ne: "es \<noteq> []" by simp_all
  show ?case
    unfolding delivers_def
  proof (intro allI impI)
    fix s :: int assume s: "0 \<le> s"
    from run_skip [OF ok ne s dd] chunkiter_Tree [of es s] less.prems obj s
    show "snd (chunkiter obj s) = None \<and>
          concat (fst (chunkiter obj s)) = drop (nat s) (joined obj)"
      by (simp add: joined_Tree_data del: wf_split.simps)
  qed
qed

lemma chunk_len_joined: "chunk_len obj = int (length (joined obj))"
proof -
  have "sum_list (map (\<lambda>b. int (length b)) bs) = int (length (concat bs))" for bs :: "bytes list"
    by (induction bs) simp_all
  then show ?thesis by (simp add: chunk_len_def joined_def)
qed

lemma offsets_ok_last:
  "offsets_ok acc es \<Longrightarrow> es \<noteq> [] \<Longrightarrow>
   fst (last es) + int (length (entry_data (last es))) = acc + int (length (concat (map entry_data es)))"
proof (induction es arbitrary: acc)
  case Nil
  then show ?case by simp
next
  case (Cons e es)
  obtain ofs isdir sha child where e: "e = (ofs, isdir, sha, child)" by (cases e)
  show ?case
  proof (cases "es = []")
    case True
    with Cons.prems e show ?thesis by (simp add: entry_data_def)
  next
    case False
    from Cons.prems e have "offsets_ok (acc + int (length (joined child))) es" by simp
    from Cons.IH [OF this False] False e show ?thesis
      by (simp add: entry_data_def)
  qed
qed

lemma wf_split_last_chunk_info:
  "wf_split obj \<Longrightarrow>
   \<exists>lastofs lastsize. last_chunk_info obj = Inr (lastofs, lastsize) \<and>
      lastofs + lastsize = int (length (joined obj))"
proof (induction obj rule: measure_induct_rule [of size])
  case (less obj)
  from less.prems obtain es where obj: "obj = Tree es" by (cases obj) simp_all
  from less.prems obj have ok: "offsets_ok 0 es" and ne: "es \<noteq> []" by simp_all
  from less.prems obj have dec: "tree_decode obj = Inr es" by (simp add: wf_split_decode)
  obtain ofs isdir sha child where l: "last es = (ofs, isdir, sha, child)" by (cases "last es")
  from offsets_ok_last [OF ok ne] l
  have total: "ofs + int (length (joined child)) = int (length (joined obj))"
    by (simp add: obj joined_Tree_data entry_data_def)
  show ?case
  proof (cases isdir)
    case True
    from ne l have mem: "(ofs, isdir, sha, child) \<in> set es" using last_in_set [of es] by simp
    with less.prems obj True have "wf_split child"
      using wf_split_dir_child [of es "(ofs, isdir, sha, child)"] by simp
    moreover from mem have "size child < size obj" using entry_size obj by blast
    ultimately obtain so sl where sub: "last_chunk_info child = Inr (so, sl)"
      "so + sl = int (length (joined child))"
      using less.IH by blast
    from dec ne l True sub have "last_chunk_info obj = Inr (ofs + so, sl)"
      by (subst last_chunk_info.simps) simp
    with sub total show ?thesis by simp
  next
    case False
    from dec ne l False have "last_chunk_info obj = Inr (ofs, chunk_len child)"
      by (subst last_chunk_info.simps) simp
    with total show ?thesis by (simp add: chunk_len_joined)
  qed
qed

lemma wf_split_total_size: "wf_split obj \<Longrightarrow> total_size obj = Inr (int (length (joined obj)))"
  using wf_split_last_chunk_info [of obj] by (auto simp: total_size_def)

lemma fetch_ok:
  "no_err it \<Longrightarrow>
   \<exists>it1 blob1. fetch it blob = Inr (it1, blob1) \<and> pending it1 blob1 = pending it blob \<and> no_err it1"
  by (auto simp: fetch_def no_err_def pending_def truthy_def
      split: option.splits list.splits prod.splits)

lemma take_drop_app: "take (n - length b) (drop n b @ X) = take (n - length b) X"
  by (cases "n \<le> length b") auto

lemma drop_drop_app: "drop (n - length b) (drop n b @ X) = drop n (b @ X)"
  by (cases "n \<le> length b") auto

lemma take_step:
  fixes out :: bytes
  assumes want: "0 < want" and w: "want = sz - int (length out)"
    and out1: "out1 = (if truthy blob1 then out @ py_upto (the blob1) want else out)"
    and blob2: "blob2 = (if truthy blob1 then Some (py_from (the blob1) want) else blob1)"
  shows "out1 @ take (nat (sz - int (length out1))) (pending it1 blob2) =
           out @ take (nat want) (pending it1 blob1)"
    and "drop (nat (sz - int (length out1))) (pending it1 blob2) =
           drop (nat want) (pending it1 blob1)"
proof -
  define X where "X = (case it1 of None \<Rightarrow> [] | Some (cs, e) \<Rightarrow> concat cs)"
  have p: "pending it1 b = (case b of None \<Rightarrow> [] | Some b \<Rightarrow> b) @ X" for b
    by (simp add: pending_def X_def)
  have both: "out1 @ take (nat (sz - int (length out1))) (pending it1 blob2) =
           out @ take (nat want) (pending it1 blob1) \<and>
        drop (nat (sz - int (length out1))) (pending it1 blob2) =
           drop (nat want) (pending it1 blob1)"
  proof (cases "truthy blob1")
    case False
    with out1 blob2 w show ?thesis by simp
  next
    case True
    then obtain b where b: "blob1 = Some b" by (auto simp: truthy_def split: option.splits)
    define n where "n = nat want"
    from want have u: "py_upto b want = take n b" and f: "py_from b want = drop n b"
      by (simp_all add: py_upto_def py_from_def n_def)
    from True b out1 u have o1: "out1 = out @ take n b" by simp
    from True b blob2 f have b2: "blob2 = Some (drop n b)" by simp
    have "length out1 = length out + min (length b) n" by (simp add: o1)
    with w want have len: "nat (sz - int (length out1)) = n - length b"
      unfolding n_def by (simp add: min_def) arith
    have p1: "pending it1 blob1 = b @ X" by (simp add: p b)
    have p2: "pending it1 blob2 = drop n b @ X" by (simp add: p b2)
    have "out1 @ take (n - length b) (drop n b @ X) = out @ take n (b @ X)"
      by (simp only: take_drop_app o1) simp
    moreover have "drop (n - length b) (drop n b @ X) = drop n (b @ X)"
      by (rule drop_drop_app)
    ultimately show ?thesis
      by (simp only: len p1 p2 n_def [symmetric])
  qed
  from both show "out1 @ take (nat (sz - int (length out1))) (pending it1 blob2) =
           out @ take (nat want) (pending it1 blob1)" by (rule conjunct1)
  from both show "drop (nat (sz - int (length out1))) (pending it1 blob2) =
           drop (nat want) (pending it1 blob1)" by (rule conjunct2)
qed

lemma take_step_end:
  fixes out :: bytes
  assumes want: "0 < want"
    and out1: "out1 = (if truthy blob1 then out @ py_upto (the blob1) want else out)"
    and blob2: "blob2 = (if truthy blob1 then Some (py_from (the blob1) want) else blob1)"
  shows "out1 = out @ take (nat want) (pending None blob1)"
    and "pending None blob2 = drop (nat want) (pending None blob1)"
  using assms
  by (auto simp: truthy_def pending_def py_upto_def py_from_def split: option.splits)

lemma next_loop_ok:
  "no_err it \<Longrightarrow>
   \<exists>it' blob'.
     next_loop sz out it blob =
       Inr (out @ take (nat (sz - int (length out))) (pending it blob), it', blob') \<and>
     pending it' blob' = drop (nat (sz - int (length out))) (pending it blob) \<and> no_err it'"
proof (induction sz out it blob rule: next_loop.induct)
  case (1 sz out it blob)
  show ?case
  proof (cases "int (length out) < sz")
    case False
    then have "next_loop sz out it blob = Inr (out, it, blob)"
      by (subst next_loop.simps) simp
    with False "1.prems" show ?thesis by simp
  next
    case True
    define want where "want = sz - int (length out)"
    from True have want: "0 < want" by (simp add: want_def)
    from fetch_ok [OF "1.prems", of blob] obtain it1 blob1
      where f: "fetch it blob = Inr (it1, blob1)" and p: "pending it1 blob1 = pending it blob"
        and ne: "no_err it1" by blast
    define out1 where "out1 = (if truthy blob1 then out @ py_upto (the blob1) want else out)"
    define blob2 where "blob2 = (if truthy blob1 then Some (py_from (the blob1) want) else blob1)"
    have unfold: "next_loop sz out it blob =
        (if it1 = None then Inr (out1, it1, blob2) else next_loop sz out1 it1 blob2)"
      using True f by (subst next_loop.simps) (simp add: Let_def out1_def blob2_def want_def)
    show ?thesis
    proof (cases "it1 = None")
      case None: True
      from take_step_end [OF want out1_def blob2_def]
      have "out1 = out @ take (nat want) (pending None blob1)"
        "pending None blob2 = drop (nat want) (pending None blob1)" by simp_all
      with None unfold p show ?thesis by (simp add: want_def no_err_def)
    next
      case False
      from "1.IH" [OF _ f refl want_def out1_def blob2_def False ne] True
      obtain it' blob' where
        r: "next_loop sz out1 it1 blob2 =
              Inr (out1 @ take (nat (sz - int (length out1))) (pending it1 blob2), it', blob')"
        and p': "pending it' blob' = drop (nat (sz - int (length out1))) (pending it1 blob2)"
        and ne': "no_err it'" by auto
      from take_step [OF want want_def out1_def blob2_def, of it1]
      have "out1 @ take (nat (sz - int (length out1))) (pending it1 blob2) =
              out @ take (nat want) (pending it1 blob1)"
        "drop (nat (sz - int (length out1))) (pending it1 blob2) =
              drop (nat want) (pending it1 blob1)" by simp_all
      moreover have "next_loop sz out it blob = next_loop sz out1 it1 blob2"
        by (simp only: unfold if_not_P [OF False])
      ultimately show ?thesis using r p' ne' p by (simp add: want_def)
    qed
  qed
qed

lemma ChunkReader_init_inv:
  assumes "0 \<le> s" and "isdir \<Longrightarrow> wf_split obj"
  shows "reader_inv (joined obj) (ChunkReader_init obj isdir s)"
proof (cases isdir)
  case True
  with assms have "delivers obj" by (simp add: wf_split_delivers)
  with assms(1) have "snd (chunkiter obj s) = None"
    "concat (fst (chunkiter obj s)) = drop (nat s) (joined obj)"
    by (simp_all add: delivers_def)
  with True assms(1) show ?thesis
    by (cases "chunkiter obj s")
      (simp add: reader_inv_def ChunkReader_init_def no_err_def pending_def)
next
  case False
  with assms(1) show ?thesis
    by (simp add: reader_inv_def ChunkReader_init_def no_err_def pending_def py_from_def)
qed

lemma drop_drop_min: "drop n (drop k c) = drop (k + min n (length c - k)) c"
  by (cases "n \<le> length c - k") (auto simp: min_def add.commute)

lemma ChunkReader_next_ok:
  assumes "reader_inv content r"
  shows "\<exists>r'. ChunkReader_next r sz = Inr (take (nat sz) (drop (nat (cr_ofs r)) content), r') \<and>
           reader_inv content r' \<and>
           cr_ofs r' = cr_ofs r + int (length (take (nat sz) (drop (nat (cr_ofs r)) content)))"
proof -
  from assms have ne: "no_err (cr_it r)"
    and p: "pending (cr_it r) (cr_blob r) = drop (nat (cr_ofs r)) content"
    and o: "0 \<le> cr_ofs r" by (simp_all add: reader_inv_def)
  define buf where "buf = take (nat sz) (drop (nat (cr_ofs r)) content)"
  from next_loop_ok [OF ne, of sz "[]" "cr_blob r"] p obtain it' blob'
    where nl: "next_loop sz [] (cr_it r) (cr_blob r) = Inr (buf, it', blob')"
      and p': "pending it' blob' = drop (nat sz) (drop (nat (cr_ofs r)) content)"
      and ne': "no_err it'" by (auto simp: buf_def)
  define r' where "r' = \<lparr>cr_it = it', cr_blob = blob', cr_ofs = cr_ofs r + int (length buf)\<rparr>"
  from nl have "ChunkReader_next r sz = Inr (buf, r')"
    by (simp add: ChunkReader_next_def r'_def)
  moreover have "reader_inv content r'"
  proof -
    have n: "nat (cr_ofs r + int (length buf)) = nat (cr_ofs r) + length buf"
      using o by (simp add: nat_add_distrib)
    have lb: "length buf = min (nat sz) (length content - nat (cr_ofs r))"
      by (simp add: buf_def min.commute)
    have "drop (nat (cr_ofs r + int (length buf))) content =
        drop (nat (cr_ofs r) + min (nat sz) (length content - nat (cr_ofs r))) content"
      by (simp only: n, simp only: lb)
    also have "\<dots> = drop (nat sz) (drop (nat (cr_ofs r)) content)"
      by (rule drop_drop_min [symmetric])
    finally have "drop (nat (cr_ofs r + int (length buf))) content =
        drop (nat sz) (drop (nat (cr_ofs r)) content)" .
    with p' ne' o show ?thesis by (simp add: reader_inv_def r'_def)
  qed
  moreover have "cr_ofs r' = cr_ofs r + int (length buf)" by (simp add: r'_def)
  ultimately show ?thesis unfolding buf_def by blast
qed

lemma seek_tell: "0 \<le> fr_size fr \<Longrightarrow> tell (seek fr ofs) = min (max ofs 0) (fr_size fr)"
  by (simp add: seek_def tell_def)

lemma seek_inv: "fr_inv fr \<Longrightarrow> fr_inv (seek fr ofs)"
  by (auto simp: seek_def fr_inv_def split: option.splits)

lemma read_ok:
  fixes fr :: FileReader and count :: int
  assumes inv: "fr_inv fr"
  defines "n \<equiv> (if count < 0 then fr_size fr - fr_ofs fr else count)"
  defines "buf \<equiv> take (nat n) (drop (nat (fr_ofs fr)) (joined (fr_hash fr)))"
  shows "\<exists>fr'. read fr count = (Inr buf, fr') \<and> fr_inv fr' \<and>
           fr_ofs fr' = fr_ofs fr + int (length buf) \<and>
           fr_hash fr' = fr_hash fr \<and> fr_isdir fr' = fr_isdir fr \<and> fr_size fr' = fr_size fr"
proof -
  define content where "content = joined (fr_hash fr)"
  define reader where "reader =
     (case fr_reader fr of
        None \<Rightarrow> ChunkReader_init (fr_hash fr) (fr_isdir fr) (fr_ofs fr)
      | Some r \<Rightarrow> if cr_ofs r \<noteq> fr_ofs fr
                  then ChunkReader_init (fr_hash fr) (fr_isdir fr) (fr_ofs fr) else r)"
  from inv have o: "0 \<le> fr_ofs fr" and le: "fr_ofs fr \<le> fr_size fr"
    and sz: "fr_size fr = int (length content)"
    and wf: "fr_isdir fr \<Longrightarrow> wf_split (fr_hash fr)"
    by (simp_all add: fr_inv_def content_def split: if_splits)
  have fresh: "reader_inv content (ChunkReader_init (fr_hash fr) (fr_isdir fr) (fr_ofs fr))"
    unfolding content_def using o wf by (rule ChunkReader_init_inv)
  have rofs: "cr_ofs (ChunkReader_init (fr_hash fr) (fr_isdir fr) (fr_ofs fr)) = fr_ofs fr"
    by (simp add: ChunkReader_init_def)
  have rinv: "reader_inv content reader" and ro: "cr_ofs reader = fr_ofs fr"
    using inv fresh rofs
    by (auto simp: reader_def fr_inv_def content_def split: option.splits)
  from ChunkReader_next_ok [OF rinv, of n] ro obtain r'
    where nx: "ChunkReader_next reader n = Inr (buf, r')" and inv': "reader_inv content r'"
    by (auto simp: buf_def content_def)
  define fr' where "fr' = fr\<lparr>fr_reader := Some r', fr_ofs := fr_ofs fr + int (length buf)\<rparr>"
  from nx have "read fr count = (Inr buf, fr')"
    by (simp add: read_def Let_def reader_def [symmetric] n_def [symmetric] fr'_def)
  moreover have "fr_ofs fr + int (length buf) \<le> fr_size fr"
    using o le sz by (simp add: buf_def content_def [symmetric])
  then have "fr_inv fr'"
    using inv inv' o by (simp add: fr_inv_def fr'_def content_def)
  moreover have "fr_ofs fr' = fr_ofs fr + int (length buf)" "fr_hash fr' = fr_hash fr"
    "fr_isdir fr' = fr_isdir fr" "fr_size fr' = fr_size fr"
    by (simp_all add: fr'_def)
  ultimately show ?thesis by blast
qed

lemma File_size_ok:
  assumes "file_inv f h"
  shows "\<exists>f'. File_size f = (Inr (int (length (joined (f_hash f)))), f') \<and> file_inv f' h \<and>
           f_hash f' = f_hash f \<and> f_bupmode f' = f_bupmode f \<and> f_filereader f' = f_filereader f"
proof (cases "f_cached_size f")
  case (Some s)
  with assms show ?thesis by (auto simp: File_size_def file_inv_def split: option.splits)
next
  case None
  have "(if f_bupmode f = BUP_CHUNKED then total_size (f_hash f) else Inr (chunk_len (f_hash f))) =
        Inr (int (length (joined (f_hash f))))"
    using assms by (simp add: file_inv_def wf_split_total_size chunk_len_joined)
  with None have "File_size f =
     (Inr (int (length (joined (f_hash f)))), f\<lparr>f_cached_size := Some (int (length (joined (f_hash f))))\<rparr>)"
    by (simp add: File_size_def)
  moreover have "file_inv (f\<lparr>f_cached_size := Some (int (length (joined (f_hash f))))\<rparr>) h"
    using assms by (auto simp: file_inv_def split: option.splits)
  ultimately show ?thesis by simp
qed

lemma FileReader_init_inv:
  "(isdir \<Longrightarrow> wf_split obj) \<Longrightarrow> fr_inv (seek (FileReader_init obj (int (length (joined obj))) isdir) 0)"
  by (auto simp: fr_inv_def seek_def FileReader_init_def)

lemma File_open_ok:
  assumes "file_inv f h"
  shows "\<exists>r f1 h1. File_open f h = (Inr r, f1, h1) \<and> file_inv f1 h1 \<and> f_filereader f1 = Some r \<and>
           tell (h1 ! r) = 0 \<and> f_hash f1 = f_hash f \<and> f_bupmode f1 = f_bupmode f \<and>
           (f_filereader f = None \<or> f_filereader f = Some r)"
proof (cases "f_filereader f")
  case (Some r)
  with assms have r: "r < length h" and inv: "fr_inv (h ! r)" by (simp_all add: file_inv_def)
  from Some have op: "File_open f h = (Inr r, f, h[r := seek (h ! r) 0])"
    by (simp add: File_open_def)
  from inv have "0 \<le> fr_size (h ! r)" by (simp add: fr_inv_def)
  then have "tell (seek (h ! r) 0) = 0" by (simp add: seek_tell)
  moreover have "file_inv f (h[r := seek (h ! r) 0])"
    using assms Some r seek_inv [OF inv, of 0]
    by (auto simp: file_inv_def seek_def split: option.splits)
  ultimately show ?thesis using op Some r by simp
next
  case None
  from File_size_ok [OF assms] obtain f' where
    sz: "File_size f = (Inr (int (length (joined (f_hash f)))), f')" and inv': "file_inv f' h"
    and eq: "f_hash f' = f_hash f" "f_bupmode f' = f_bupmode f" "f_filereader f' = f_filereader f"
    by blast
  define fr where "fr = FileReader_init (f_hash f) (int (length (joined (f_hash f)))) (f_bupmode f = BUP_CHUNKED)"
  define f1 where "f1 = f'\<lparr>f_filereader := Some (length h)\<rparr>"
  define h1 where "h1 = (h @ [fr])[length h := seek ((h @ [fr]) ! length h) 0]"
  from None sz eq have op: "File_open f h = (Inr (length h), f1, h1)"
    by (simp add: File_open_def Let_def fr_def f1_def h1_def)
  have h1: "h1 ! length h = seek fr 0" by (simp add: h1_def)
  have wf: "f_bupmode f = BUP_CHUNKED \<Longrightarrow> wf_split (f_hash f)"
    using assms by (simp add: file_inv_def split: if_splits)
  have frinv: "fr_inv (seek fr 0)"
    unfolding fr_def using wf by (rule FileReader_init_inv)
  have "file_inv f1 h1"
  proof -
    have "fr_hash (seek fr 0) = f_hash f" "fr_isdir (seek fr 0) = (f_bupmode f = BUP_CHUNKED)"
      by (simp_all add: seek_def fr_def FileReader_init_def)
    moreover have "length h < length h1" by (simp add: h1_def)
    ultimately show ?thesis
      using inv' eq frinv h1 None
      by (auto simp: file_inv_def f1_def split: option.splits)
  qed
  moreover have "tell (h1 ! length h) = 0"
    by (simp add: h1 seek_def tell_def fr_def FileReader_init_def)
  ultimately show ?thesis using op eq None by (simp add: f1_def)
qed

lemma file_inv_seek:
  "file_inv f h \<Longrightarrow> f_filereader f = Some r \<Longrightarrow> file_inv f (h[r := seek (h ! r) ofs])"
  using seek_inv [of "h ! r" ofs] by (auto simp: file_inv_def seek_def split: option.splits)

lemma file_inv_read:
  assumes "file_inv f h" "f_filereader f = Some r"
  shows "file_inv f (h[r := snd (read (h ! r) count)])"
proof -
  from assms have "fr_inv (h ! r)" by (simp add: file_inv_def)
  from read_ok [OF this, of count] assms show ?thesis
    by (auto simp: file_inv_def split: option.splits)
qed

lemma example_file_inv: "file_inv example_file []"
  by (simp add: file_inv_def example_file_def File_init_def example_tree_def joined_def)

lemma example_reader_inv: "fr_inv example_reader"
  by (simp add: fr_inv_def example_reader_def FileReader_init_def joined_def)

text \<open>
  C1.  Let \<open>f\<close> be a chunked file over a well-formed split tree, in any state that it and
  its reader can be in, let \<open>sz\<close> be what \<open>f.size()\<close> returns, and let
  \<open>0 \<le> a \<le> b \<le> sz\<close>.  Then \<open>sz\<close> is the length of the content of the file (the
  concatenation of the blobs of the tree), \<open>f.open()\<close> returns a reader, and on that reader
  \<open>seek(a)\<close> followed by \<open>read(b - a)\<close> returns the bytes \<open>[a, b)\<close> of the content.
  Chunk boundaries do not matter.
\<close>

theorem chunked_seek_read_slice:
  assumes "file_inv f h" and "f_bupmode f = BUP_CHUNKED"
    and "fst (File_size f) = Inr sz" and "0 \<le> a" and "a \<le> b" and "b \<le> sz"
  shows "sz = int (length (joined (f_hash f))) \<and>
         (\<exists>r f1 h1. File_open f h = (Inr r, f1, h1) \<and>
            fst (read (seek (h1 ! r) a) (b - a)) =
              Inr (take (nat (b - a)) (drop (nat a) (joined (f_hash f)))))"
proof -
  from File_size_ok [OF assms(1)] assms(3)
  have sz: "sz = int (length (joined (f_hash f)))" by auto
  from File_open_ok [OF assms(1)] obtain r f1 h1 where
    op: "File_open f h = (Inr r, f1, h1)" and inv: "file_inv f1 h1"
    and r: "f_filereader f1 = Some r" and eq: "f_hash f1 = f_hash f" by blast
  from inv r have fi: "fr_inv (h1 ! r)" and fh: "fr_hash (h1 ! r) = f_hash f1"
    by (simp_all add: file_inv_def)
  from fi have s1: "fr_size (h1 ! r) = sz"
    by (simp add: fr_inv_def fh eq sz)
  from seek_inv [OF fi, of a] have si: "fr_inv (seek (h1 ! r) a)" .
  have so: "fr_ofs (seek (h1 ! r) a) = a" "fr_hash (seek (h1 ! r) a) = f_hash f"
    using assms(4-6) s1 fh eq by (simp_all add: seek_def)
  from read_ok [OF si, of "b - a"] so assms(5)
  have "fst (read (seek (h1 ! r) a) (b - a)) =
          Inr (take (nat (b - a)) (drop (nat a) (joined (f_hash f))))"
    by auto
  with op sz show ?thesis by blast
qed

theorem chunked_seek_read_slice_witness:
  "file_inv example_file [] \<and> f_bupmode example_file = BUP_CHUNKED \<and>
   fst (File_size example_file) = Inr 10 \<and> (0::int) \<le> 3 \<and> (3::int) \<le> 9 \<and> (9::int) \<le> 10 \<and>
   fst (read (seek (snd (snd (File_open example_file [])) ! 0) 3) (9 - 3)) = Inr ''loworl''"
proof -
  have m: "f_bupmode example_file = BUP_CHUNKED" and h: "f_hash example_file = example_tree"
    by (simp_all add: example_file_def File_init_def)
  have j: "joined example_tree = ''helloworld''"
    by (simp add: example_tree_def joined_def)
  from File_size_ok [OF example_file_inv]
  have sz: "fst (File_size example_file) = Inr 10" by (auto simp: h j)
  from File_open_ok [OF example_file_inv]
  have r: "fst (File_open example_file []) = Inr 0"
    by (auto simp: File_open_def example_file_def File_init_def split: prod.splits sum.splits)
  from chunked_seek_read_slice [OF example_file_inv m sz, of 3 9] r
  have "fst (read (seek (snd (snd (File_open example_file [])) ! 0) 3) (9 - 3)) = Inr ''loworl''"
    by (auto simp: h j)
  with example_file_inv m sz show ?thesis by simp
qed

text \<open>
  C7, as the code has it.  For a reader of size \<open>s\<close> over well-formed content, in any state
  that it can be in: \<open>seek(ofs)\<close> sets the position to \<open>min(max(ofs, 0), s)\<close>; \<open>read(count)\<close>
  at position \<open>p\<close> never raises; with \<open>count \<ge> 0\<close> it returns the \<open>min(count, s - p)\<close>
  bytes of the content that begin at \<open>p\<close>, with a negative \<open>count\<close> (the default is
  \<open>-1\<close>) it returns all \<open>s - p\<close> bytes from \<open>p\<close> to the end; the position advances by the
  number of bytes returned.
\<close>

theorem FileReader_seek_read:
  assumes "fr_inv fr"
  shows "tell (seek fr ofs) = min (max ofs 0) (fr_size fr) \<and>
         (\<exists>buf fr'. read fr count = (Inr buf, fr') \<and>
            buf = take (nat (if count < 0 then fr_size fr - tell fr else count))
                    (drop (nat (tell fr)) (joined (fr_hash fr))) \<and>
            int (length buf) = (if count < 0 then fr_size fr - tell fr
                                else min count (fr_size fr - tell fr)) \<and>
            tell fr' = tell fr + int (length buf) \<and> fr_inv fr')"
proof -
  from assms have sz: "fr_size fr = int (length (joined (fr_hash fr)))"
    and o: "0 \<le> fr_ofs fr" and le: "fr_ofs fr \<le> fr_size fr"
    by (simp_all add: fr_inv_def)
  from sz have "0 \<le> fr_size fr" by simp
  then have s: "tell (seek fr ofs) = min (max ofs 0) (fr_size fr)" by (rule seek_tell)
  define n where "n = (if count < 0 then fr_size fr - fr_ofs fr else count)"
  define buf where "buf = take (nat n) (drop (nat (fr_ofs fr)) (joined (fr_hash fr)))"
  from read_ok [OF assms, of count] obtain fr' where
    r: "read fr count = (Inr buf, fr')" and inv: "fr_inv fr'"
    and o': "fr_ofs fr' = fr_ofs fr + int (length buf)"
    by (auto simp: buf_def n_def)
  have "int (length buf) = min n (fr_size fr - fr_ofs fr)"
    using sz o le by (auto simp: buf_def n_def min_def)
  then have len: "int (length buf) = (if count < 0 then fr_size fr - fr_ofs fr
                                else min count (fr_size fr - fr_ofs fr))"
    by (simp add: n_def)
  from r inv o' len s show ?thesis
    unfolding tell_def buf_def n_def by blast
qed

theorem FileReader_seek_read_witness:
  "fr_inv example_reader \<and> tell (seek example_reader 7) = 5 \<and>
   fst (read (seek example_reader 2) 10) = Inr ''llo'' \<and>
   tell (snd (read (seek example_reader 2) 10)) = 5"
proof -
  have i: "fr_inv (seek example_reader 2)"
    using example_reader_inv by (rule seek_inv)
  have e: "tell (seek example_reader 2) = 2" "fr_size (seek example_reader 2) = 5"
    "joined (fr_hash (seek example_reader 2)) = ''hello''"
    by (simp_all add: example_reader_def FileReader_init_def seek_def tell_def joined_def)
  have "fr_size example_reader = 5" by (simp add: example_reader_def FileReader_init_def)
  with FileReader_seek_read [OF example_reader_inv, of 7 0]
  have "tell (seek example_reader 7) = 5" by simp
  moreover from FileReader_seek_read [OF i, of 0 10]
  have "fst (read (seek example_reader 2) 10) = Inr ''llo'' \<and>
        tell (snd (read (seek example_reader 2) 10)) = 5"
    by (auto simp: e)
  ultimately show ?thesis using example_reader_inv by simp
qed

text \<open>With the default \<open>count = -1\<close> the reader returns five bytes, which is neither at
  most \<open>count\<close> nor \<open>min(count, s - p)\<close> bytes.\<close>

theorem read_negative_count_counterexample:
  "fst (read example_reader (- 1)) = Inr ''hello'' \<and>
   \<not> int (length ''hello'') \<le> - 1 \<and>
   int (length ''hello'') \<noteq> min (- 1) (fr_size example_reader - tell example_reader)"
  by (simp add: read_def example_reader_def FileReader_init_def ChunkReader_init_def
      ChunkReader_next_def next_loop.simps fetch_def truthy_def py_from_def py_upto_def
      joined_def tell_def Let_def)

text \<open>
  C10.  For a file over a well-formed object, in any state that it and its reader can be
  in, \<open>open()\<close> returns a reader whose \<open>tell()\<close> is 0.  The file then holds that reader: in
  whatever state the reader is later, a further \<open>open()\<close> returns the same reader (the same
  address on the heap), leaves the file as it is, and does nothing to the heap but
  \<open>seek(0)\<close> on that reader, after which its \<open>tell()\<close> is 0 again.
\<close>

theorem File_open_rewinds:
  assumes "file_inv f h"
  shows "\<exists>r f1 h1. File_open f h = (Inr r, f1, h1) \<and> tell (h1 ! r) = 0 \<and> file_inv f1 h1 \<and>
           (\<forall>h2. file_inv f1 h2 \<longrightarrow>
                 File_open f1 h2 = (Inr r, f1, h2[r := seek (h2 ! r) 0]) \<and>
                 tell (h2[r := seek (h2 ! r) 0] ! r) = 0)"
proof -
  from File_open_ok [OF assms] obtain r f1 h1 where
    op: "File_open f h = (Inr r, f1, h1)" and inv: "file_inv f1 h1"
    and r: "f_filereader f1 = Some r" and t: "tell (h1 ! r) = 0" by blast
  have "File_open f1 h2 = (Inr r, f1, h2[r := seek (h2 ! r) 0]) \<and>
        tell (h2[r := seek (h2 ! r) 0] ! r) = 0" if i2: "file_inv f1 h2" for h2
  proof -
    from r have o2: "File_open f1 h2 = (Inr r, f1, h2[r := seek (h2 ! r) 0])"
      by (simp add: File_open_def)
    from File_open_ok [OF i2] o2 have "tell (h2[r := seek (h2 ! r) 0] ! r) = 0" by simp
    with o2 show ?thesis by simp
  qed
  with op t inv show ?thesis by blast
qed

theorem File_open_rewinds_witness:
  "file_inv example_file [] \<and>
   fst (File_open example_file []) = Inr 0 \<and>
   tell (snd (snd (File_open example_file [])) ! 0) = 0 \<and>
   tell (snd (read (snd (snd (File_open example_file [])) ! 0) 4)) = 4 \<and>
   fst (File_open (fst (snd (File_open example_file [])))
         ((snd (snd (File_open example_file [])))
            [0 := snd (read (snd (snd (File_open example_file [])) ! 0) 4)])) = Inr 0 \<and>
   tell (snd (snd (File_open (fst (snd (File_open example_file [])))
         ((snd (snd (File_open example_file [])))
            [0 := snd (read (snd (snd (File_open example_file [])) ! 0) 4)]))) ! 0) = 0"
proof -
  from File_open_rewinds [OF example_file_inv] obtain r f1 h1 where
    op: "File_open example_file [] = (Inr r, f1, h1)" and t: "tell (h1 ! r) = 0"
    and inv: "file_inv f1 h1"
    and again: "\<And>h2. file_inv f1 h2 \<Longrightarrow>
                 File_open f1 h2 = (Inr r, f1, h2[r := seek (h2 ! r) 0]) \<and>
                 tell (h2[r := seek (h2 ! r) 0] ! r) = 0" by blast
  from op have r0: "r = 0" and fr: "f_filereader f1 = Some 0"
    by (auto simp: File_open_def example_file_def File_init_def File_size_def Let_def
        split: sum.splits if_splits)
  from inv fr have fi: "fr_inv (h1 ! 0)" by (simp add: file_inv_def)
  from t r0 have p: "fr_ofs (h1 ! 0) = 0" by (simp add: tell_def)
  from inv fr have "fr_hash (h1 ! 0) = f_hash f1" by (simp add: file_inv_def)
  moreover from File_open_ok [OF example_file_inv] op have "f_hash f1 = f_hash example_file" by simp
  ultimately have j: "joined (fr_hash (h1 ! 0)) = ''helloworld''"
    by (simp add: example_file_def File_init_def example_tree_def joined_def)
  from read_ok [OF fi, of 4] p j
  have adv: "tell (snd (read (h1 ! 0) 4)) = 4" by (auto simp: tell_def)
  from file_inv_read [OF inv fr, of 4]
  have "file_inv f1 (h1[0 := snd (read (h1 ! 0) 4)])" .
  from again [OF this] r0
  have "fst (File_open f1 (h1[0 := snd (read (h1 ! 0) 4)])) = Inr 0"
    "tell (snd (snd (File_open f1 (h1[0 := snd (read (h1 ! 0) 4)]))) ! 0) = 0"
    by simp_all
  with op t r0 adv example_file_inv show ?thesis by simp
qed

section \<open>Proofs: path resolution and symlinks\<close>

lemma path_parts_c: "path_parts ''c'' = [''c'']"
  by (simp add: path_parts_def split_slashes.simps)

lemma path_parts_ab: "path_parts ''a/b'' = [''a'', ''b'']"
  by (simp add: path_parts_def split_slashes.simps)

lemma path_parts_dot: "path_parts ''.'' = [''.'']"
  by (simp add: path_parts_def split_slashes.simps)

lemma dereference_limit:
  "100 < symrefs \<Longrightarrow> dereference (Suc n) fs symrefs self = Some (Inl TooManySymlinks, symrefs)"
  by simp

lemma symrefs_restored:
  "(\<forall>fs c self parts r c'. lresolve_parts n fs c self parts = Some (r, c') \<longrightarrow> c' = c) \<and>
   (\<forall>fs c self r c'. dereference n fs c self = Some (r, c') \<longrightarrow> c' = c) \<and>
   (\<forall>fs c self path stay r c'. lresolve n fs c self path stay = Some (r, c') \<longrightarrow> c' = c)"
proof (induction n)
  case 0
  show ?case by simp
next
  case (Suc n)
  then have P: "\<And>fs c self parts r c'. lresolve_parts n fs c self parts = Some (r, c') \<Longrightarrow> c' = c"
    and Q: "\<And>fs c self r c'. dereference n fs c self = Some (r, c') \<Longrightarrow> c' = c"
    and R: "\<And>fs c self path stay r c'. lresolve n fs c self path stay = Some (r, c') \<Longrightarrow> c' = c"
    by blast+
  have "c' = c" if "lresolve_parts (Suc n) fs c self parts = Some (r, c')"
    for fs c self parts r c'
    using that
    by (auto split: if_splits option.splits sum.splits list.splits prod.splits dest: P Q)
  moreover have "c' = c" if "dereference (Suc n) fs c self = Some (r, c')"
    for fs c self r c'
    using that
    by (auto split: if_splits option.splits prod.splits dest: R)
  moreover have "c' = c" if "lresolve (Suc n) fs c self path stay = Some (r, c')"
    for fs c self path stay r c'
    using that P
    by (auto split: if_splits prod.splits)
  ultimately show ?case by blast
qed

text \<open>In the tree of scenario 5 the two links are found, and each is dereferenced to the
  other with the counter back at its value, or the bound is reached.\<close>

lemma cycle_node_b: "node_of cycle_tree [''b'', ''a''] = Some (Symlink ''c'')"
  and cycle_node_c: "node_of cycle_tree [''c'', ''a''] = Some (Symlink ''/a/b'')"
  and cycle_node_a: "node_of cycle_tree [''a''] =
        Some (Node Dir_class [(''b'', Symlink ''c''), (''c'', Symlink ''/a/b'')])"
  and cycle_node_root: "node_of cycle_tree [] = Some cycle_tree"
  by (simp_all add: node_of_def cycle_tree_def)

lemma cycle_subs:
  "sub cycle_tree [] ''a'' = Inr [''a'']"
  "sub cycle_tree [''a''] ''b'' = Inr [''b'', ''a'']"
  "sub cycle_tree [''a''] ''c'' = Inr [''c'', ''a'']"
  by (simp_all add: sub_def node_of_def cycle_tree_def)

lemma cycle_kinds:
  "\<not> is_Symlink (node_of cycle_tree [])"
  "\<not> is_Symlink (node_of cycle_tree [''a''])"
  "is_Symlink (node_of cycle_tree [''b'', ''a''])"
  "is_Symlink (node_of cycle_tree [''c'', ''a''])"
  "\<not> is_CommitList (node_of cycle_tree [])"
  by (simp_all add: is_Symlink_def is_CommitList_def node_of_def cycle_tree_def)

lemma cycle_find_b:
  "lresolve_parts n cycle_tree c [] [''a'', ''b''] = None \<or>
   lresolve_parts n cycle_tree c [] [''a'', ''b''] = Some (Inr [''b'', ''a''], c)"
proof (cases n)
  case 0
  then show ?thesis by simp
next
  case (Suc m)
  show ?thesis
  proof (cases m)
    case 0
    with Suc show ?thesis by (simp add: cycle_subs cycle_kinds)
  next
    case (Suc k)
    with \<open>n = Suc m\<close> show ?thesis by (simp add: cycle_subs cycle_kinds)
  qed
qed

lemma cycle_deref_b:
  "c \<le> 100 \<Longrightarrow>
   dereference n cycle_tree c [''b'', ''a''] = None \<or>
   dereference n cycle_tree c [''b'', ''a''] = Some (Inr [''c'', ''a''], c)"
proof -
  assume c: "c \<le> 100"
  have rl: "readlink cycle_tree [''b'', ''a''] = ''c''"
    by (simp add: readlink_def cycle_node_b)
  show ?thesis
  proof (cases n)
    case 0
    then show ?thesis by simp
  next
    case n: (Suc m)
    show ?thesis
    proof (cases m)
      case 0
      with n c show ?thesis by (simp add: parent_def)
    next
      case m: (Suc k)
      show ?thesis
      proof (cases k)
        case 0
        with n m c show ?thesis by (simp add: parent_def rl lresolve_start_def)
      next
        case (Suc j)
        with n m c show ?thesis
          by (simp add: parent_def rl lresolve_start_def path_parts_c cycle_subs cycle_kinds)
      qed
    qed
  qed
qed

lemma cycle_deref_c:
  "c \<le> 100 \<Longrightarrow>
   dereference n cycle_tree c [''c'', ''a''] = None \<or>
   dereference n cycle_tree c [''c'', ''a''] = Some (Inr [''b'', ''a''], c)"
proof -
  assume c: "c \<le> 100"
  have rl: "readlink cycle_tree [''c'', ''a''] = ''/a/b''"
    by (simp add: readlink_def cycle_node_c)
  have st: "lresolve_start cycle_tree [''a''] ''/a/b'' True = ([], [''a'', ''b''])"
    by (simp add: lresolve_start_def path_parts_ab cycle_kinds)
  show ?thesis
  proof (cases n)
    case 0
    then show ?thesis by simp
  next
    case n: (Suc m)
    show ?thesis
    proof (cases m)
      case 0
      with n c show ?thesis by (simp add: parent_def)
    next
      case m: (Suc k)
      from cycle_find_b [of k "c + 1"] n m c show ?thesis
        by (auto simp: parent_def rl st)
    qed
  qed
qed

lemma cycle_never_returns:
  "c \<le> 100 \<Longrightarrow>
   lresolve_parts n cycle_tree c [''b'', ''a''] parts = None \<and>
   lresolve_parts n cycle_tree c [''c'', ''a''] parts = None"
proof (induction n)
  case 0
  show ?case by simp
next
  case (Suc n)
  from cycle_deref_b [OF Suc.prems, of n] Suc.IH [OF Suc.prems]
  have "lresolve_parts (Suc n) cycle_tree c [''b'', ''a''] parts = None"
    by (auto simp: cycle_kinds)
  moreover from cycle_deref_c [OF Suc.prems, of n] Suc.IH [OF Suc.prems]
  have "lresolve_parts (Suc n) cycle_tree c [''c'', ''a''] parts = None"
    by (auto simp: cycle_kinds)
  ultimately show ?case by simp
qed

text \<open>
  C4, at the input of scenario 5.  In the directory \<open>a\<close>, \<open>b\<close> is a symlink to \<open>c\<close> and \<open>c\<close>
  is a symlink to \<open>/a/b\<close>.  With \<open>_symrefs\<close> at 0, \<open>resolve('/a/b')\<close> returns neither a node
  nor an exception, whatever depth of calls it is allowed: it does not raise
  \<open>TooManySymlinks\<close>.
\<close>

theorem symlink_cycle_never_raises: "resolve n cycle_tree 0 [] ''/a/b'' = None"
proof (cases n)
  case 0
  then show ?thesis by (simp add: resolve_def)
next
  case (Suc m)
  have st: "lresolve_start cycle_tree [] ''/a/b'' False = ([], [''a'', ''b''])"
    by (simp add: lresolve_start_def path_parts_ab)
  have st2: "lresolve_start cycle_tree [''b'', ''a''] ''.'' False = ([''b'', ''a''], [''.''])"
    by (simp add: lresolve_start_def path_parts_dot)
  from cycle_never_returns [of 0 m "[''.'']"]
  have "lresolve (Suc m) cycle_tree 0 [''b'', ''a''] ''.'' False = None"
    by (simp add: st2)
  with cycle_find_b [of m 0] Suc show ?thesis
    by (auto simp: resolve_def st)
qed

text \<open>When the dereferences are nested, which happens when a link is met inside the target
  of another one, the counter grows and \<open>TooManySymlinks\<close> is raised; the counter is back
  at its value afterwards.\<close>

lemma nested_links_raise:
  "lresolve 500 nested_tree 0 [] ''/a/l/x'' False = Some (Inl TooManySymlinks, 0)"
  by code_simp

lemma final_segment_entry:
  "lresolve_parts n fs c self (ps @ [name]) = Some (Inr r, c') \<Longrightarrow>
   name \<noteq> ''.'' \<Longrightarrow> name \<noteq> ''..'' \<Longrightarrow>
   \<exists>d. \<not> is_Symlink (node_of fs d) \<and> sub fs d name = Inr r"
proof (induction n arbitrary: c self ps)
  case 0
  then show ?case by simp
next
  case (Suc n)
  show ?case
  proof (cases "is_Symlink (node_of fs self)")
    case True
    with Suc.prems(1) obtain t c1 where "lresolve_parts n fs c1 t (ps @ [name]) = Some (Inr r, c')"
      by (auto split: option.splits sum.splits prod.splits)
    from Suc.IH [OF this Suc.prems(2,3)] show ?thesis .
  next
    case False
    show ?thesis
    proof (cases ps)
      case Nil
      with False Suc.prems have "sub fs self name = Inr r" by simp
      with False show ?thesis by blast
    next
      case (Cons p ps')
      with False Suc.prems(1) obtain s where
        "lresolve_parts n fs c s (ps' @ [name]) = Some (Inr r, c')"
        by (auto split: if_splits option.splits sum.splits)
      from Suc.IH [OF this Suc.prems(2,3)] show ?thesis .
    qed
  qed
qed

lemma walk_empty:
  "\<not> is_Symlink (node_of fs self) \<Longrightarrow> lresolve_parts (Suc n) fs c self [] = Some (Inr self, c)"
  by simp

lemma walk_dots:
  "\<not> is_Symlink (node_of fs self) \<Longrightarrow> set ps \<subseteq> {''.''} \<Longrightarrow>
   lresolve_parts (Suc (length ps + n)) fs c self ps = Some (Inr self, c)"
  by (induction ps) simp_all

lemma fuel_step:
  "(\<forall>fs c self parts v. lresolve_parts n fs c self parts = Some v \<longrightarrow>
      lresolve_parts (Suc n) fs c self parts = Some v) \<and>
   (\<forall>fs c self v. dereference n fs c self = Some v \<longrightarrow>
      dereference (Suc n) fs c self = Some v) \<and>
   (\<forall>fs c self path stay v. lresolve n fs c self path stay = Some v \<longrightarrow>
      lresolve (Suc n) fs c self path stay = Some v)"
proof (induction n)
  case 0
  show ?case by simp
next
  case (Suc n)
  then have P: "\<And>fs c self parts v. lresolve_parts n fs c self parts = Some v \<Longrightarrow>
      lresolve_parts (Suc n) fs c self parts = Some v"
    and Q: "\<And>fs c self v. dereference n fs c self = Some v \<Longrightarrow>
      dereference (Suc n) fs c self = Some v"
    and R: "\<And>fs c self path stay v. lresolve n fs c self path stay = Some v \<Longrightarrow>
      lresolve (Suc n) fs c self path stay = Some v"
    by blast+
  have p: "lresolve_parts (Suc (Suc n)) fs c self parts = Some v"
    if h: "lresolve_parts (Suc n) fs c self parts = Some v" for fs c self parts v
  proof (cases "is_Symlink (node_of fs self)")
    case True
    from h True obtain r c1 where d: "dereference n fs c self = Some (r, c1)"
      by (subst (asm) lresolve_parts.simps) (auto split: option.splits)
    note d' = Q [OF d]
    show ?thesis
    proof (cases r)
      case (Inl e)
      with h True d have "v = (Inl e, c1)"
        by (subst (asm) lresolve_parts.simps) simp
      with True d' Inl show ?thesis
        by (subst lresolve_parts.simps) simp
    next
      case (Inr t)
      with h True d have "lresolve_parts n fs c1 t parts = Some v"
        by (subst (asm) lresolve_parts.simps) simp
      from P [OF this] True d' Inr show ?thesis
        by (subst lresolve_parts.simps) simp
    qed
  next
    case False
    show ?thesis
    proof (cases parts)
      case Nil
      with h False show ?thesis by simp
    next
      case (Cons first rest)
      show ?thesis
      proof (cases "first = ''.''")
        case True
        with h False Cons have "lresolve_parts n fs c self rest = Some v"
          by (subst (asm) lresolve_parts.simps) simp
        from P [OF this] False Cons True show ?thesis
          by (subst lresolve_parts.simps) simp
      next
        case nd: False
        show ?thesis
        proof (cases "first = ''..''")
          case True
          show ?thesis
          proof (cases "parent self")
            case None
            with h False Cons True show ?thesis by simp
          next
            case (Some up)
            with h False Cons True have "lresolve_parts n fs c up rest = Some v"
              by (subst (asm) lresolve_parts.simps) simp
            from P [OF this] False Cons True Some show ?thesis
              by (subst lresolve_parts.simps) simp
          qed
        next
          case ndd: False
          show ?thesis
          proof (cases "rest = []")
            case True
            with h False Cons nd ndd show ?thesis by simp
          next
            case ne: False
            show ?thesis
            proof (cases "sub fs self first")
              case (Inl e)
              with h False Cons nd ndd ne show ?thesis by simp
            next
              case (Inr child)
              with h False Cons nd ndd ne have "lresolve_parts n fs c child rest = Some v"
                by (subst (asm) lresolve_parts.simps) simp
              from P [OF this] False Cons nd ndd ne Inr show ?thesis
                by (subst lresolve_parts.simps) simp
            qed
          qed
        qed
      qed
    qed
  qed
  have q: "dereference (Suc (Suc n)) fs c self = Some v"
    if h: "dereference (Suc n) fs c self = Some v" for fs c self v
  proof (cases "100 < c")
    case True
    with h show ?thesis by simp
  next
    case False
    show ?thesis
    proof (cases "parent self")
      case None
      with h False show ?thesis by simp
    next
      case (Some up)
      with h False obtain res c1 where l: "lresolve n fs (c + 1) up (readlink fs self) True = Some (res, c1)"
        and v: "v = (res, c1 - 1)"
        by (subst (asm) dereference.simps) (auto split: option.splits)
      from R [OF l] False Some v show ?thesis
        by (subst dereference.simps) simp
    qed
  qed
  have r: "lresolve (Suc (Suc n)) fs c self path stay = Some v"
    if h: "lresolve (Suc n) fs c self path stay = Some v" for fs c self path stay v
  proof (cases "path = []")
    case True
    with h show ?thesis by simp
  next
    case False
    obtain start parts where s: "lresolve_start fs self path stay = (start, parts)"
      by (cases "lresolve_start fs self path stay")
    with h False have "lresolve_parts n fs c start parts = Some v"
      by (subst (asm) lresolve.simps) simp
    from P [OF this] False s show ?thesis
      by (subst lresolve.simps) simp
  qed
  from p q r show ?case by blast
qed

lemma node_at_snoc:
  "node_at t (p @ [name]) =
     (case node_at t p of Some (Node cls subs) \<Rightarrow> map_of subs name | _ \<Rightarrow> None)"
proof (induction p arbitrary: t)
  case Nil
  show ?case
  proof (cases t)
    case (Node cls subs)
    then show ?thesis by (cases "map_of subs name") simp_all
  next
    case (Symlink target)
    then show ?thesis by simp
  qed
next
  case (Cons q p)
  show ?case
  proof (cases t)
    case (Node cls subs)
    with Cons show ?thesis by (cases "map_of subs q") simp_all
  next
    case (Symlink target)
    then show ?thesis by simp
  qed
qed

lemma sub_child:
  "sub fs self name = Inr ch \<Longrightarrow>
   ch = name # self \<and> parent ch = Some self \<and>
   (\<exists>cls subs node. node_of fs self = Some (Node cls subs) \<and> map_of subs name = Some node \<and>
      node_of fs ch = Some node)"
  by (auto simp: sub_def parent_def node_of_def node_at_snoc
      split: option.splits vnode.splits)

lemma sub_missing:
  "node_of fs self = Some (Node cls subs) \<Longrightarrow> name \<notin> fst ` set subs \<Longrightarrow>
   sub fs self name = Inl NoSuchFile"
proof -
  assume n: "node_of fs self = Some (Node cls subs)" and "name \<notin> fst ` set subs"
  then have "map_of subs name = None" by (simp add: map_of_eq_None_iff)
  with n show ?thesis by (simp add: sub_def)
qed

lemma sub_present:
  "node_of fs self = Some (Node cls subs) \<Longrightarrow> name \<in> fst ` set subs \<Longrightarrow>
   sub fs self name = Inr (name # self)"
proof -
  assume n: "node_of fs self = Some (Node cls subs)" and "name \<in> fst ` set subs"
  then have "map_of subs name \<noteq> None" by (simp add: map_of_eq_None_iff)
  then obtain node where "map_of subs name = Some node" by blast
  with n show ?thesis by (simp add: sub_def)
qed

lemma fs_top_nearest:
  "\<exists>pre. self = pre @ fs_top fs self \<and>
     (fs_top fs self = [] \<or> is_CommitList (node_of fs (tl (fs_top fs self)))) \<and>
     (\<forall>k<length pre. \<not> is_CommitList (node_of fs (drop (Suc k) self)))"
proof (induction self)
  case Nil
  show ?case by simp
next
  case (Cons name up)
  show ?case
  proof (cases "is_CommitList (node_of fs up)")
    case True
    then show ?thesis by simp
  next
    case False
    from Cons obtain pre where pre: "up = pre @ fs_top fs up"
      and t: "fs_top fs up = [] \<or> is_CommitList (node_of fs (tl (fs_top fs up)))"
      and no: "\<forall>k<length pre. \<not> is_CommitList (node_of fs (drop (Suc k) up))" by blast
    have nk: "\<forall>k<length (name # pre). \<not> is_CommitList (node_of fs (drop (Suc k) (name # up)))"
    proof (intro allI impI)
      fix k assume k: "k < length (name # pre)"
      show "\<not> is_CommitList (node_of fs (drop (Suc k) (name # up)))"
      proof (cases k)
        case 0
        with False show ?thesis by simp
      next
        case (Suc j)
        with k no show ?thesis by simp
      qed
    qed
    from False have f: "fs_top fs (name # up) = fs_top fs up" by simp
    from pre have eq: "name # up = (name # pre) @ fs_top fs up" by simp
    have "name # up = (name # pre) @ fs_top fs (name # up) \<and>
     (fs_top fs (name # up) = [] \<or> is_CommitList (node_of fs (tl (fs_top fs (name # up))))) \<and>
     (\<forall>k<length (name # pre). \<not> is_CommitList (node_of fs (drop (Suc k) (name # up))))"
      unfolding f using eq t nk by (intro conjI)
    then show ?thesis by (rule exI [of _ "name # pre"])
  qed
qed

lemma path_parts_dotdot: "path_parts ''..'' = [''..'']"
  by (simp add: path_parts_def split_slashes.simps)

lemma fuel_mono:
  "n \<le> m \<Longrightarrow>
   (lresolve_parts n fs c self parts = Some v \<longrightarrow> lresolve_parts m fs c self parts = Some v) \<and>
   (dereference n fs c self = Some v \<longrightarrow> dereference m fs c self = Some v) \<and>
   (lresolve n fs c self path stay = Some v \<longrightarrow> lresolve m fs c self path stay = Some v)"
proof (induction m)
  case 0
  then show ?case by simp
next
  case (Suc m)
  show ?case
  proof (cases "n = Suc m")
    case True
    then show ?thesis by simp
  next
    case False
    with Suc.prems have "n \<le> m" by simp
    from Suc.IH [OF this] fuel_step [of m] show ?thesis by blast
  qed
qed

text \<open>
  C6.  \<open>lresolve\<close> returns the node itself on the empty path.  On a path with a leading
  slash it walks the segments of the rest of the path from \<open>fs_top()\<close>, if \<open>stay_inside_fs\<close>
  is set, or from \<open>top()\<close>, which is the root; on another path it walks the segments from
  the node.  The walk, at a node that is not a symlink: when no segment is left it returns
  the node; \<open>.\<close> goes on at the same node; \<open>..\<close> goes on at the parent, and raises
  \<open>NoSuchFile\<close> at a node without a parent; another segment that is not the last goes on at
  \<open>sub(name)\<close>, or raises what \<open>sub\<close> raises; a last segment returns \<open>sub(name)\<close> as it is
  and leaves the counter alone.  The walk at a symlink, with the segments that are left,
  dereferences the symlink and goes on at its target.  As results: a walk of any number of
  \<open>.\<close> segments returns the node where it starts, \<open>lresolve('.')\<close> returns the node,
  \<open>lresolve('..')\<close> returns the parent, or raises \<open>NoSuchFile\<close> at the root; whenever the walk
  of segments that end in a name returns a node, that node is the entry of that name in a
  node that is not a symlink, so that a symlink in the last segment is not dereferenced; a
  result does not depend on the bound on the depth of the calls once that is large enough,
  and the counter is afterwards what it was before.  Here \<open>sub(name)\<close> is the child of that
  name, whose parent is the node, and raises \<open>NoSuchFile\<close> when the node has no child of
  that name; \<open>fs_top()\<close> is the nearest of the node and its ancestors whose parent is a
  \<open>CommitList\<close>, and the root when there is none.
\<close>

theorem lresolve_walk:
  "lresolve (Suc n) fs c self [] stay = Some (Inr self, c) \<and>
   (path \<noteq> [] \<and> hd path = CHR ''/'' \<longrightarrow>
      lresolve (Suc n) fs c self path stay =
        lresolve_parts n fs c (if stay then fs_top fs self else top self)
          (path_parts (tl path))) \<and>
   top self = [] \<and> parent [] = None \<and>
   (\<exists>pre. self = pre @ fs_top fs self \<and>
      (fs_top fs self = [] \<or> is_CommitList (node_of fs (tl (fs_top fs self)))) \<and>
      (\<forall>k<length pre. \<not> is_CommitList (node_of fs (drop (Suc k) self)))) \<and>
   (node_of fs self = Some (Node cls subs) \<longrightarrow>
      sub fs self name =
        (if name \<in> fst ` set subs then Inr (name # self) else Inl NoSuchFile)) \<and>
   (sub fs self name = Inr ch \<longrightarrow>
      ch = name # self \<and> parent ch = Some self \<and>
      (\<exists>cls subs node. node_of fs self = Some (Node cls subs) \<and>
         map_of subs name = Some node \<and> node_of fs ch = Some node)) \<and>
   (path \<noteq> [] \<and> hd path \<noteq> CHR ''/'' \<longrightarrow>
      lresolve (Suc n) fs c self path stay = lresolve_parts n fs c self (path_parts path)) \<and>
   (\<not> is_Symlink (node_of fs self) \<longrightarrow>
      lresolve_parts (Suc n) fs c self [] = Some (Inr self, c) \<and>
      lresolve_parts (Suc n) fs c self (''.'' # rest) = lresolve_parts n fs c self rest \<and>
      lresolve_parts (Suc n) fs c self (''..'' # rest) =
        (case parent self of
           None \<Rightarrow> Some (Inl NoSuchFile, c)
         | Some up \<Rightarrow> lresolve_parts n fs c up rest) \<and>
      (name \<noteq> ''.'' \<and> name \<noteq> ''..'' \<and> rest \<noteq> [] \<longrightarrow>
         lresolve_parts (Suc n) fs c self (name # rest) =
           (case sub fs self name of
              Inl e \<Rightarrow> Some (Inl e, c)
            | Inr child \<Rightarrow> lresolve_parts n fs c child rest)) \<and>
      (name \<noteq> ''.'' \<and> name \<noteq> ''..'' \<longrightarrow>
         lresolve_parts (Suc n) fs c self [name] = Some (sub fs self name, c)) \<and>
      (set dots \<subseteq> {''.''} \<longrightarrow>
         lresolve_parts (Suc (length dots + n)) fs c self dots = Some (Inr self, c)) \<and>
      lresolve (Suc (Suc (Suc n))) fs c self ''.'' stay = Some (Inr self, c) \<and>
      lresolve (Suc (Suc (Suc n))) fs c self ''..'' stay =
        (case self of
           [] \<Rightarrow> Some (Inl NoSuchFile, c)
         | x # up \<Rightarrow>
             if is_Symlink (node_of fs up) then lresolve_parts (Suc n) fs c up []
             else Some (Inr up, c))) \<and>
   (is_Symlink (node_of fs self) \<longrightarrow>
      lresolve_parts (Suc n) fs c self parts =
        (case dereference n fs c self of
           None \<Rightarrow> None
         | Some (Inl e, c') \<Rightarrow> Some (Inl e, c')
         | Some (Inr target, c') \<Rightarrow> lresolve_parts n fs c' target parts)) \<and>
   (name \<noteq> ''.'' \<and> name \<noteq> ''..'' \<and>
    lresolve_parts n fs c self (ps @ [name]) = Some (Inr r, c') \<longrightarrow>
      (\<exists>d. \<not> is_Symlink (node_of fs d) \<and> sub fs d name = Inr r)) \<and>
   (lresolve n fs c self path stay = Some (res, c') \<longrightarrow>
      c' = c \<and> (\<forall>m\<ge>n. lresolve m fs c self path stay = Some (res, c'))) \<and>
   (lresolve_parts n fs c self parts = Some (res, c') \<longrightarrow>
      c' = c \<and> (\<forall>m\<ge>n. lresolve_parts m fs c self parts = Some (res, c')))"
proof -
  have 1: "lresolve (Suc n) fs c self [] stay = Some (Inr self, c)" by simp
  have 2: "path \<noteq> [] \<and> hd path = CHR ''/'' \<longrightarrow>
      lresolve (Suc n) fs c self path stay =
        lresolve_parts n fs c (if stay then fs_top fs self else top self)
          (path_parts (tl path))"
    by (simp add: lresolve_start_def)
  have t: "top self = []" by (induction self) simp_all
  have pr: "parent [] = None" by (simp add: parent_def)
  have 3: "path \<noteq> [] \<and> hd path \<noteq> CHR ''/'' \<longrightarrow>
      lresolve (Suc n) fs c self path stay = lresolve_parts n fs c self (path_parts path)"
    by (simp add: lresolve_start_def)
  have dd: "lresolve (Suc (Suc (Suc n))) fs c self ''..'' stay =
        (case self of
           [] \<Rightarrow> Some (Inl NoSuchFile, c)
         | x # up \<Rightarrow>
             if is_Symlink (node_of fs up) then lresolve_parts (Suc n) fs c up []
             else Some (Inr up, c))"
    if "\<not> is_Symlink (node_of fs self)"
    using that
    by (cases self) (simp_all add: lresolve_start_def path_parts_dotdot parent_def)
  have 4: "\<not> is_Symlink (node_of fs self) \<longrightarrow>
      lresolve_parts (Suc n) fs c self [] = Some (Inr self, c) \<and>
      lresolve_parts (Suc n) fs c self (''.'' # rest) = lresolve_parts n fs c self rest \<and>
      lresolve_parts (Suc n) fs c self (''..'' # rest) =
        (case parent self of
           None \<Rightarrow> Some (Inl NoSuchFile, c)
         | Some up \<Rightarrow> lresolve_parts n fs c up rest) \<and>
      (name \<noteq> ''.'' \<and> name \<noteq> ''..'' \<and> rest \<noteq> [] \<longrightarrow>
         lresolve_parts (Suc n) fs c self (name # rest) =
           (case sub fs self name of
              Inl e \<Rightarrow> Some (Inl e, c)
            | Inr child \<Rightarrow> lresolve_parts n fs c child rest)) \<and>
      (name \<noteq> ''.'' \<and> name \<noteq> ''..'' \<longrightarrow>
         lresolve_parts (Suc n) fs c self [name] = Some (sub fs self name, c)) \<and>
      (set dots \<subseteq> {''.''} \<longrightarrow>
         lresolve_parts (Suc (length dots + n)) fs c self dots = Some (Inr self, c)) \<and>
      lresolve (Suc (Suc (Suc n))) fs c self ''.'' stay = Some (Inr self, c) \<and>
      lresolve (Suc (Suc (Suc n))) fs c self ''..'' stay =
        (case self of
           [] \<Rightarrow> Some (Inl NoSuchFile, c)
         | x # up \<Rightarrow>
             if is_Symlink (node_of fs up) then lresolve_parts (Suc n) fs c up []
             else Some (Inr up, c))"
  proof
    assume ns: "\<not> is_Symlink (node_of fs self)"
    have a: "lresolve_parts (Suc n) fs c self [] = Some (Inr self, c)"
      using ns by (rule walk_empty)
    have b: "lresolve_parts (Suc n) fs c self (''.'' # rest) = lresolve_parts n fs c self rest"
      "lresolve_parts (Suc n) fs c self (''..'' # rest) =
        (case parent self of
           None \<Rightarrow> Some (Inl NoSuchFile, c)
         | Some up \<Rightarrow> lresolve_parts n fs c up rest)"
      "name \<noteq> ''.'' \<and> name \<noteq> ''..'' \<and> rest \<noteq> [] \<longrightarrow>
         lresolve_parts (Suc n) fs c self (name # rest) =
           (case sub fs self name of
              Inl e \<Rightarrow> Some (Inl e, c)
            | Inr child \<Rightarrow> lresolve_parts n fs c child rest)"
      "name \<noteq> ''.'' \<and> name \<noteq> ''..'' \<longrightarrow>
         lresolve_parts (Suc n) fs c self [name] = Some (sub fs self name, c)"
      using ns by simp_all
    have d: "set dots \<subseteq> {''.''} \<longrightarrow>
         lresolve_parts (Suc (length dots + n)) fs c self dots = Some (Inr self, c)"
      using walk_dots [OF ns] by blast
    have e: "lresolve (Suc (Suc (Suc n))) fs c self ''.'' stay = Some (Inr self, c)"
      using ns by (simp add: lresolve_start_def path_parts_dot)
    from a b d e dd [OF ns]
    show "lresolve_parts (Suc n) fs c self [] = Some (Inr self, c) \<and>
      lresolve_parts (Suc n) fs c self (''.'' # rest) = lresolve_parts n fs c self rest \<and>
      lresolve_parts (Suc n) fs c self (''..'' # rest) =
        (case parent self of
           None \<Rightarrow> Some (Inl NoSuchFile, c)
         | Some up \<Rightarrow> lresolve_parts n fs c up rest) \<and>
      (name \<noteq> ''.'' \<and> name \<noteq> ''..'' \<and> rest \<noteq> [] \<longrightarrow>
         lresolve_parts (Suc n) fs c self (name # rest) =
           (case sub fs self name of
              Inl e \<Rightarrow> Some (Inl e, c)
            | Inr child \<Rightarrow> lresolve_parts n fs c child rest)) \<and>
      (name \<noteq> ''.'' \<and> name \<noteq> ''..'' \<longrightarrow>
         lresolve_parts (Suc n) fs c self [name] = Some (sub fs self name, c)) \<and>
      (set dots \<subseteq> {''.''} \<longrightarrow>
         lresolve_parts (Suc (length dots + n)) fs c self dots = Some (Inr self, c)) \<and>
      lresolve (Suc (Suc (Suc n))) fs c self ''.'' stay = Some (Inr self, c) \<and>
      lresolve (Suc (Suc (Suc n))) fs c self ''..'' stay =
        (case self of
           [] \<Rightarrow> Some (Inl NoSuchFile, c)
         | x # up \<Rightarrow>
             if is_Symlink (node_of fs up) then lresolve_parts (Suc n) fs c up []
             else Some (Inr up, c))"
      by (intro conjI)
  qed
  have 5: "is_Symlink (node_of fs self) \<longrightarrow>
      lresolve_parts (Suc n) fs c self parts =
        (case dereference n fs c self of
           None \<Rightarrow> None
         | Some (Inl e, c') \<Rightarrow> Some (Inl e, c')
         | Some (Inr target, c') \<Rightarrow> lresolve_parts n fs c' target parts)"
    by simp
  have 6: "name \<noteq> ''.'' \<and> name \<noteq> ''..'' \<and>
    lresolve_parts n fs c self (ps @ [name]) = Some (Inr r, c') \<longrightarrow>
      (\<exists>d. \<not> is_Symlink (node_of fs d) \<and> sub fs d name = Inr r)"
    using final_segment_entry [of n fs c self ps name r c'] by blast
  have 7: "lresolve n fs c self path stay = Some (res, c') \<longrightarrow>
      c' = c \<and> (\<forall>m\<ge>n. lresolve m fs c self path stay = Some (res, c'))"
    using symrefs_restored [of n] fuel_mono [of n _ fs c self parts "(res, c')" path stay]
    by blast
  have 8: "lresolve_parts n fs c self parts = Some (res, c') \<longrightarrow>
      c' = c \<and> (\<forall>m\<ge>n. lresolve_parts m fs c self parts = Some (res, c'))"
    using symrefs_restored [of n] fuel_mono [of n _ fs c self parts "(res, c')" path stay]
    by blast
  have ft: "\<exists>pre. self = pre @ fs_top fs self \<and>
      (fs_top fs self = [] \<or> is_CommitList (node_of fs (tl (fs_top fs self)))) \<and>
      (\<forall>k<length pre. \<not> is_CommitList (node_of fs (drop (Suc k) self)))"
    by (rule fs_top_nearest)
  have s1: "node_of fs self = Some (Node cls subs) \<longrightarrow>
      sub fs self name =
        (if name \<in> fst ` set subs then Inr (name # self) else Inl NoSuchFile)"
    using sub_present [of fs self cls subs name] sub_missing [of fs self cls subs name]
    by simp
  have s2: "sub fs self name = Inr ch \<longrightarrow>
      ch = name # self \<and> parent ch = Some self \<and>
      (\<exists>cls subs node. node_of fs self = Some (Node cls subs) \<and>
         map_of subs name = Some node \<and> node_of fs ch = Some node)"
    using sub_child [of fs self name ch] by blast
  from 1 2 t pr ft s1 s2 3 4 5 6 7 8 show ?thesis by (intro conjI)
qed

theorem lresolve_walk_witness:
  "\<not> is_Symlink (node_of links_tree [''a'']) \<and>
   \<not> is_Symlink (node_of links_tree [''d'', ''a'']) \<and>
   is_Symlink (node_of links_tree [''l'', ''a'']) \<and>
   node_of links_tree [] = Some links_tree \<and>
   sub links_tree [''a''] ''l'' = Inr [''l'', ''a''] \<and>
   sub links_tree [''a''] ''x'' = Inl NoSuchFile \<and>
   set [''.'', ''.''] \<subseteq> {''.''} \<and>
   lresolve (Suc 5) links_tree 0 [''a''] [] False = Some (Inr [''a''], 0) \<and>
   lresolve (Suc 5) links_tree 0 [''a''] ''/a/l'' False =
     lresolve_parts 5 links_tree 0 [] [''a'', ''l''] \<and>
   lresolve_parts 5 links_tree 0 [] [''a'', ''l''] = Some (Inr [''l'', ''a''], 0) \<and>
   lresolve_parts (Suc 5) links_tree 0 [''a''] [''l''] = Some (Inr [''l'', ''a''], 0) \<and>
   lresolve_parts (Suc 5) links_tree 0 [''a''] [''l'', ''f''] = Some (Inr [''f'', ''d'', ''a''], 0) \<and>
   lresolve_parts (Suc 5) links_tree 0 [''d'', ''a''] [] = Some (Inr [''d'', ''a''], 0) \<and>
   lresolve_parts (Suc (length [''.'', ''.''] + 5)) links_tree 0 [''d'', ''a''] [''.'', ''.''] =
     Some (Inr [''d'', ''a''], 0) \<and>
   lresolve (Suc (Suc (Suc 5))) links_tree 0 [''d'', ''a''] ''.'' False = Some (Inr [''d'', ''a''], 0) \<and>
   lresolve (Suc (Suc (Suc 5))) links_tree 0 [''d'', ''a''] ''..'' False = Some (Inr [''a''], 0) \<and>
   lresolve (Suc (Suc (Suc 5))) links_tree 0 [] ''..'' False = Some (Inl NoSuchFile, 0) \<and>
   lresolve 8 links_tree 0 [''a''] ''d/f/..'' False = Some (Inr [''d'', ''a''], 0) \<and>
   lresolve 20 links_tree 0 [''a''] ''d/f/..'' False = Some (Inr [''d'', ''a''], 0) \<and>
   resolve 8 links_tree 0 [] ''/a/d/f'' = Some (Inr [''f'', ''d'', ''a''], 0) \<and>
   resolve 8 links_tree 0 [] ''/a/m'' = Some (Inr [''f'', ''d'', ''a''], 0)"
proof -
  have kinds: "\<not> is_Symlink (node_of links_tree [''a''])"
    "\<not> is_Symlink (node_of links_tree [''d'', ''a''])"
    "is_Symlink (node_of links_tree [''l'', ''a''])"
    "\<not> is_Symlink (node_of links_tree [])"
    by (simp_all add: is_Symlink_def node_of_def links_tree_def)
  have fs: "node_of links_tree [] = Some links_tree" by (simp add: node_of_def)
  have na: "node_of links_tree [''a''] =
      Some (Node Dir_class
           [(''d'', Node Dir_class [(''f'', Node File_class [])]),
            (''l'', Symlink ''d''),
            (''m'', Symlink ''d/f'')])"
    by (simp add: node_of_def links_tree_def)
  have pp: "path_parts (tl ''/a/l'') = [''a'', ''l'']"
    by (simp add: path_parts_def split_slashes.simps)
  have dots: "set [''.'', ''.''] \<subseteq> {''.''}" by simp
  have ev: "lresolve_parts 5 links_tree 0 [] [''a'', ''l''] = Some (Inr [''l'', ''a''], 0)"
    "lresolve_parts 5 links_tree 0 [''l'', ''a''] [''f''] = Some (Inr [''f'', ''d'', ''a''], 0)"
    "lresolve 8 links_tree 0 [''a''] ''d/f/..'' False = Some (Inr [''d'', ''a''], 0)"
    "resolve 8 links_tree 0 [] ''/a/d/f'' = Some (Inr [''f'', ''d'', ''a''], 0)"
    "resolve 8 links_tree 0 [] ''/a/m'' = Some (Inr [''f'', ''d'', ''a''], 0)"
    by code_simp+
  note w = lresolve_walk [where n = 5 and fs = links_tree and c = 0 and stay = False
      and path = "''/a/l''" and rest = "[''f'']" and dots = "[''.'', ''.'']"]
  note wa = w [where self = "[''a'']" and name = "''l''" and cls = Dir_class and subs = "[(''d'', Node Dir_class [(''f'', Node File_class [])]),
            (''l'', Symlink ''d''), (''m'', Symlink ''d/f'')]"]
  note wx = w [where self = "[''a'']" and name = "''x''" and cls = Dir_class and subs = "[(''d'', Node Dir_class [(''f'', Node File_class [])]),
            (''l'', Symlink ''d''), (''m'', Symlink ''d/f'')]"]
  note wd = w [where self = "[''d'', ''a'']"]
  note wr = w [where self = "[]"]
  have a1: "lresolve (Suc 5) links_tree 0 [''a''] [] False = Some (Inr [''a''], 0)"
    by (rule wa [THEN conjunct1])
  from wa [THEN conjunct2, THEN conjunct1] pp
  have a2: "lresolve (Suc 5) links_tree 0 [''a''] ''/a/l'' False =
       lresolve_parts 5 links_tree 0 [] [''a'', ''l'']" by simp
  from wa [THEN conjunct2, THEN conjunct2, THEN conjunct2, THEN conjunct2, THEN conjunct2, THEN conjunct1] na
  have a3: "sub links_tree [''a''] ''l'' = Inr [''l'', ''a'']" by simp
  from wx [THEN conjunct2, THEN conjunct2, THEN conjunct2, THEN conjunct2, THEN conjunct2, THEN conjunct1] na
  have b: "sub links_tree [''a''] ''x'' = Inl NoSuchFile" by simp
  note blk_a = wa [THEN conjunct2, THEN conjunct2, THEN conjunct2, THEN conjunct2, THEN conjunct2, THEN conjunct2, THEN conjunct2, THEN conjunct2, THEN conjunct1, THEN mp, OF kinds(1)]
  from blk_a [THEN conjunct2, THEN conjunct2, THEN conjunct2, THEN conjunct2, THEN conjunct1] a3
  have a4: "lresolve_parts (Suc 5) links_tree 0 [''a''] [''l''] = Some (Inr [''l'', ''a''], 0)"
    by simp
  from blk_a [THEN conjunct2, THEN conjunct2, THEN conjunct2, THEN conjunct1] a3 ev(2)
  have a5: "lresolve_parts (Suc 5) links_tree 0 [''a''] [''l'', ''f''] = Some (Inr [''f'', ''d'', ''a''], 0)"
    by simp
  note blk_d = wd [THEN conjunct2, THEN conjunct2, THEN conjunct2, THEN conjunct2, THEN conjunct2, THEN conjunct2, THEN conjunct2, THEN conjunct2, THEN conjunct1, THEN mp, OF kinds(2)]
  have d1: "lresolve_parts (Suc 5) links_tree 0 [''d'', ''a''] [] = Some (Inr [''d'', ''a''], 0)"
    by (rule blk_d [THEN conjunct1])
  from blk_d [THEN conjunct2, THEN conjunct2, THEN conjunct2, THEN conjunct2, THEN conjunct2, THEN conjunct1] dots
  have d2: "lresolve_parts (Suc (length [''.'', ''.''] + 5)) links_tree 0 [''d'', ''a''] [''.'', ''.''] =
       Some (Inr [''d'', ''a''], 0)" by (rule mp)
  have d3: "lresolve (Suc (Suc (Suc 5))) links_tree 0 [''d'', ''a''] ''.'' False = Some (Inr [''d'', ''a''], 0)"
    by (rule blk_d [THEN conjunct2, THEN conjunct2, THEN conjunct2, THEN conjunct2, THEN conjunct2, THEN conjunct2, THEN conjunct1])
  from blk_d [THEN conjunct2, THEN conjunct2, THEN conjunct2, THEN conjunct2, THEN conjunct2, THEN conjunct2, THEN conjunct2] kinds(1)
  have d4: "lresolve (Suc (Suc (Suc 5))) links_tree 0 [''d'', ''a''] ''..'' False = Some (Inr [''a''], 0)"
    by simp
  note blk_r = wr [THEN conjunct2, THEN conjunct2, THEN conjunct2, THEN conjunct2, THEN conjunct2, THEN conjunct2, THEN conjunct2, THEN conjunct2, THEN conjunct1, THEN mp, OF kinds(4)]
  from blk_r [THEN conjunct2, THEN conjunct2, THEN conjunct2, THEN conjunct2, THEN conjunct2, THEN conjunct2, THEN conjunct2]
  have e: "lresolve (Suc (Suc (Suc 5))) links_tree 0 [] ''..'' False = Some (Inl NoSuchFile, 0)"
    by simp
  note wf = lresolve_walk [where n = 8 and fs = links_tree and c = 0 and self = "[''a'']"
      and path = "''d/f/..''" and stay = False and res = "Inr [''d'', ''a'']" and c' = 0]
  from wf [THEN conjunct2, THEN conjunct2, THEN conjunct2, THEN conjunct2, THEN conjunct2, THEN conjunct2, THEN conjunct2, THEN conjunct2, THEN conjunct2, THEN conjunct2, THEN conjunct2, THEN conjunct1] ev(3)
  have "\<forall>m\<ge>8. lresolve m links_tree 0 [''a''] ''d/f/..'' False = Some (Inr [''d'', ''a''], 0)"
    by simp
  then have f: "lresolve 20 links_tree 0 [''a''] ''d/f/..'' False = Some (Inr [''d'', ''a''], 0)"
    by simp
  from kinds(1,2,3) fs a3 b dots a1 a2 ev(1) a4 a5 d1 d2 d3 d4 e ev(3) f ev(4,5)
  show ?thesis by (intro conjI)
qed

section \<open>Proofs: the children of a directory\<close>

lemma mksubs_fold_subs:
  "map_of (fst (fold (mksubs_step dm) es ([], b))) name =
     (case [e \<leftarrow> rev es. \<not> is_bupm e \<and> fst (make_child dm e) = name] of
        [] \<Rightarrow> None
      | e # _ \<Rightarrow> Some (snd (make_child dm e)))"
proof (induction es rule: rev_induct)
  case Nil
  show ?case by simp
next
  case (snoc e es)
  obtain mode mn sha where e: "e = (mode, mn, sha)" by (cases e)
  show ?case
  proof (cases "mn = ''.bupm''")
    case True
    with e snoc show ?thesis by (simp add: mksubs_step_def is_bupm_def)
  next
    case False
    obtain nm node where mc: "make_child dm e = (nm, node)" by (cases "make_child dm e")
    with False e snoc show ?thesis
      by (simp add: mksubs_step_def is_bupm_def update_conv')
  qed
qed

lemma mksubs_fold_bupm:
  "snd (fold (mksubs_step dm) es (al, b)) =
     (case [e \<leftarrow> rev es. is_bupm e] of
        [] \<Rightarrow> b
      | (mode, mn, sha) # _ \<Rightarrow>
          Some (NewFile ''.bupm'' GIT_MODE_FILE sha (if S_ISDIR mode then BUP_CHUNKED else BUP_NORMAL)))"
proof (induction es rule: rev_induct)
  case Nil
  show ?case by simp
next
  case (snoc e es)
  obtain mode mn sha where e: "e = (mode, mn, sha)" by (cases e)
  obtain nm node where mc: "make_child dm e = (nm, node)" by (cases "make_child dm e")
  show ?case
  proof (cases "mn = ''.bupm''")
    case True
    with e show ?thesis by (simp add: mksubs_step_def is_bupm_def)
  next
    case False
    with e mc have "snd (fold (mksubs_step dm) (es @ [e]) (al, b)) = snd (fold (mksubs_step dm) es (al, b))"
      by (simp add: mksubs_step_def)
    moreover from False e have "[x \<leftarrow> rev (es @ [e]). is_bupm x] = [x \<leftarrow> rev es. is_bupm x]"
      by (simp add: is_bupm_def)
    ultimately show ?thesis using snoc by simp
  qed
qed

lemma mksubs_fold_filter:
  "fst (fold (mksubs_step dm) es (al, b)) =
   fst (fold (mksubs_step dm) [e \<leftarrow> es. \<not> is_bupm e] (al, b'))"
proof (induction es rule: rev_induct)
  case Nil
  show ?case by simp
next
  case (snoc e es)
  obtain mode mn sha where e: "e = (mode, mn, sha)" by (cases e)
  obtain nm node where mc: "make_child dm e = (nm, node)" by (cases "make_child dm e")
  show ?case
  proof (cases "mn = ''.bupm''")
    case True
    with e have "fst (fold (mksubs_step dm) (es @ [e]) (al, b)) = fst (fold (mksubs_step dm) es (al, b))"
      by (simp add: mksubs_step_def)
    moreover from True e have "[x \<leftarrow> es @ [e]. \<not> is_bupm x] = [x \<leftarrow> es. \<not> is_bupm x]"
      by (simp add: is_bupm_def)
    ultimately show ?thesis using snoc by simp
  next
    case False
    with e mc have "fst (fold (mksubs_step dm) (es @ [e]) (al, b)) =
        AList.update nm node (fst (fold (mksubs_step dm) es (al, b)))"
      by (simp add: mksubs_step_def)
    moreover from False e have f: "[x \<leftarrow> es @ [e]. \<not> is_bupm x] = [x \<leftarrow> es. \<not> is_bupm x] @ [e]"
      by (simp add: is_bupm_def)
    have "fst (fold (mksubs_step dm) [x \<leftarrow> es @ [e]. \<not> is_bupm x] (al, b')) =
        AList.update nm node (fst (fold (mksubs_step dm) [x \<leftarrow> es. \<not> is_bupm x] (al, b')))"
      unfolding f using False e mc by (simp add: mksubs_step_def)
    ultimately show ?thesis using snoc by simp
  qed
qed

lemma set_update_subset: "set (AList.update k v al) \<subseteq> insert (k, v) (set al)"
  by (induction al) auto

lemma mksubs_fold_values:
  "set (fst (fold (mksubs_step dm) es ([], b))) \<subseteq> make_child dm ` {e \<in> set es. \<not> is_bupm e}"
proof (induction es rule: rev_induct)
  case Nil
  show ?case by simp
next
  case (snoc e es)
  obtain mode mn sha where e: "e = (mode, mn, sha)" by (cases e)
  obtain nm node where mc: "make_child dm e = (nm, node)" by (cases "make_child dm e")
  define st where "st = fold (mksubs_step dm) es ([], b)"
  have ih: "set (fst st) \<subseteq> make_child dm ` {x \<in> set es. \<not> is_bupm x}"
    using snoc by (simp add: st_def)
  have mono: "make_child dm ` {x \<in> set es. \<not> is_bupm x} \<subseteq>
              make_child dm ` {x \<in> set (es @ [e]). \<not> is_bupm x}" by auto
  show ?case
  proof (cases "mn = ''.bupm''")
    case True
    with e have "fst (fold (mksubs_step dm) (es @ [e]) ([], b)) = fst st"
      by (simp add: mksubs_step_def st_def)
    with ih mono show ?thesis by simp
  next
    case False
    with e mc have eq: "fst (fold (mksubs_step dm) (es @ [e]) ([], b)) = AList.update nm node (fst st)"
      by (simp add: mksubs_step_def st_def)
    from False e have "\<not> is_bupm e" by (simp add: is_bupm_def)
    then have "e \<in> {x \<in> set (es @ [e]). \<not> is_bupm x}" by simp
    then have "make_child dm e \<in> make_child dm ` {x \<in> set (es @ [e]). \<not> is_bupm x}"
      by (rule imageI)
    then have new: "(nm, node) \<in> make_child dm ` {x \<in> set (es @ [e]). \<not> is_bupm x}"
      by (simp only: mc)
    have "set (AList.update nm node (fst st)) \<subseteq> insert (nm, node) (set (fst st))"
      by (rule set_update_subset)
    also have "\<dots> \<subseteq> make_child dm ` {x \<in> set (es @ [e]). \<not> is_bupm x}"
      using new ih mono by (intro insert_subsetI) (auto simp only: subset_iff)
    finally show ?thesis by (simp only: eq)
  qed
qed

lemma Dir_mksubs_not_tree:
  "Dir_mksubs dm StoredBlob self = (Some AssertionError, self\<lparr>d_subs := Some []\<rparr>)"
  by (simp add: Dir_mksubs_def)

lemma make_child_cases:
  "dm mn mode = (name, bm) \<Longrightarrow>
   make_child dm (mode, mn, sha) =
     (name,
      if bm = BUP_CHUNKED then NewFile name GIT_MODE_FILE sha BUP_CHUNKED
      else if S_ISDIR mode then NewDir name mode sha
      else if S_ISLNK mode then NewSymlink name sha bm
      else NewFile name mode sha bm)"
  by (simp add: make_child_def S_ISDIR_def S_ISLNK_def GIT_MODE_FILE_def)

text \<open>
  C8.  \<open>Dir._mksubs\<close> on a tree object, or on a commit and its tree, raises nothing.  It
  sets \<open>_bupm\<close> to a \<open>File\<close> named \<open>.bupm\<close> with the mode of a regular file for the last
  entry of that name, if there is one.  The dictionary \<open>_subs\<close> that it builds is the one
  that it builds from the tree without the entries named \<open>.bupm\<close>: under each name it
  holds the node made from the last other entry that is demangled to that name, and every
  node it holds is made from such an entry; so \<open>sub\<close> and \<open>subs\<close> of a directory that is not
  yet materialised return only such nodes, and \<open>sub('.bupm')\<close> raises \<open>NoSuchFile\<close> unless
  another entry is demangled to that name.  An entry that is demangled to \<open>(name, bupmode)\<close>
  is made a node of that name: with \<open>CHUNKED\<close> a \<open>File\<close> with the mode of a regular file,
  whatever the mode of the entry is, and otherwise a \<open>Dir\<close>, a \<open>Symlink\<close> or a \<open>File\<close> by the
  mode of the entry.
\<close>

theorem Dir_mksubs_children:
  "\<exists>subs.
     Dir_mksubs dm (StoredTree entries) self =
       (None,
        \<lparr>d_subs = Some subs,
         d_bupm = (case [e \<leftarrow> rev entries. is_bupm e] of
                     [] \<Rightarrow> d_bupm self
                   | (mode, mn, sha) # _ \<Rightarrow>
                       Some (NewFile ''.bupm'' GIT_MODE_FILE sha
                               (if S_ISDIR mode then BUP_CHUNKED else BUP_NORMAL)))\<rparr>) \<and>
     Dir_mksubs dm (StoredCommit (StoredTree entries)) self =
       Dir_mksubs dm (StoredTree entries) self \<and>
     Dir_mksubs dm (StoredTree [e \<leftarrow> entries. \<not> is_bupm e]) self =
       (None, \<lparr>d_subs = Some subs, d_bupm = d_bupm self\<rparr>) \<and>
     (\<forall>name. map_of subs name =
        (case [e \<leftarrow> rev entries. \<not> is_bupm e \<and> fst (make_child dm e) = name] of
           [] \<Rightarrow> None
         | e # _ \<Rightarrow> Some (snd (make_child dm e)))) \<and>
     set subs \<subseteq> make_child dm ` {e \<in> set entries. \<not> is_bupm e} \<and>
     (d_subs self = None \<longrightarrow>
        (\<forall>name node self'. Dir_sub dm (StoredTree entries) self name = (Inr node, self') \<longrightarrow>
           (\<exists>e \<in> set entries. \<not> is_bupm e \<and> make_child dm e = (name, node))) \<and>
        ((\<forall>e \<in> set entries. \<not> is_bupm e \<longrightarrow> fst (make_child dm e) \<noteq> ''.bupm'') \<longrightarrow>
           fst (Dir_sub dm (StoredTree entries) self ''.bupm'') = Inl NoSuchFile) \<and>
        fst (Dir_subs dm (StoredTree entries) self) = Inr (map snd (sort_key fst subs))) \<and>
     (dm mn mode = (name, bm) \<longrightarrow>
        make_child dm (mode, mn, sha) =
          (name,
           if bm = BUP_CHUNKED then NewFile name GIT_MODE_FILE sha BUP_CHUNKED
           else if S_ISDIR mode then NewDir name mode sha
           else if S_ISLNK mode then NewSymlink name sha bm
           else NewFile name mode sha bm))"
proof -
  define st where "st = fold (mksubs_step dm) entries ([], d_bupm self)"
  define subs where "subs = fst st"
  define bupm where "bupm = (case [e \<leftarrow> rev entries. is_bupm e] of
                        [] \<Rightarrow> d_bupm self
                      | (mode, mn, sha) # _ \<Rightarrow>
                          Some (NewFile ''.bupm'' GIT_MODE_FILE sha
                                  (if S_ISDIR mode then BUP_CHUNKED else BUP_NORMAL)))"
  have b: "snd st = bupm"
    unfolding st_def bupm_def by (rule mksubs_fold_bupm)
  have mk: "Dir_mksubs dm (StoredTree entries) self = (None, \<lparr>d_subs = Some subs, d_bupm = bupm\<rparr>)"
    using b by (auto simp: Dir_mksubs_def st_def [symmetric] subs_def split: prod.splits)
  have mc: "Dir_mksubs dm (StoredCommit (StoredTree entries)) self =
       Dir_mksubs dm (StoredTree entries) self"
    by (simp add: Dir_mksubs_def)
  have nb: "[e \<leftarrow> rev [e \<leftarrow> entries. \<not> is_bupm e]. is_bupm e] = []"
    by (simp add: rev_filter [symmetric])
  have "fst (fold (mksubs_step dm) [e \<leftarrow> entries. \<not> is_bupm e] ([], d_bupm self)) = subs"
    unfolding subs_def st_def by (rule mksubs_fold_filter [symmetric])
  moreover have "snd (fold (mksubs_step dm) [e \<leftarrow> entries. \<not> is_bupm e] ([], d_bupm self)) = d_bupm self"
    by (simp only: mksubs_fold_bupm nb list.case)
  ultimately have mkf: "Dir_mksubs dm (StoredTree [e \<leftarrow> entries. \<not> is_bupm e]) self =
       (None, \<lparr>d_subs = Some subs, d_bupm = d_bupm self\<rparr>)"
    by (auto simp: Dir_mksubs_def split: prod.splits)
  have look: "map_of subs name =
        (case [e \<leftarrow> rev entries. \<not> is_bupm e \<and> fst (make_child dm e) = name] of
           [] \<Rightarrow> None
         | e # _ \<Rightarrow> Some (snd (make_child dm e)))" for name
    unfolding subs_def st_def by (rule mksubs_fold_subs)
  have vals: "set subs \<subseteq> make_child dm ` {e \<in> set entries. \<not> is_bupm e}"
    unfolding subs_def st_def by (rule mksubs_fold_values)
  have sub: "\<exists>e \<in> set entries. \<not> is_bupm e \<and> make_child dm e = (name, node)"
    if "d_subs self = None" "Dir_sub dm (StoredTree entries) self name = (Inr node, self')"
    for name node self'
  proof -
    from that mk have "map_of subs name = Some node"
      by (simp add: Dir_sub_def materialise_def split: option.splits)
    then have "(name, node) \<in> set subs" by (rule map_of_SomeD)
    with vals have "(name, node) \<in> make_child dm ` {e \<in> set entries. \<not> is_bupm e}" by (rule subsetD)
    then obtain e where e: "(name, node) = make_child dm e" "e \<in> {e \<in> set entries. \<not> is_bupm e}"
      by (rule imageE)
    from e(2) have "e \<in> set entries" "\<not> is_bupm e" by simp_all
    with e(1) [symmetric] show ?thesis by blast
  qed
  have hidden: "fst (Dir_sub dm (StoredTree entries) self ''.bupm'') = Inl NoSuchFile"
    if n: "d_subs self = None"
      and no: "\<forall>e \<in> set entries. \<not> is_bupm e \<longrightarrow> fst (make_child dm e) \<noteq> ''.bupm''"
  proof -
    from no have "[e \<leftarrow> rev entries. \<not> is_bupm e \<and> fst (make_child dm e) = ''.bupm''] = []"
      by (auto simp: filter_empty_conv)
    with look [of "''.bupm''"] have "map_of subs ''.bupm'' = None" by simp
    with n mk show ?thesis by (simp add: Dir_sub_def materialise_def)
  qed
  have subs: "fst (Dir_subs dm (StoredTree entries) self) = Inr (map snd (sort_key fst subs))"
    if "d_subs self = None"
    using that mk by (simp add: Dir_subs_def materialise_def)
  note mk' = mk [unfolded bupm_def]
  have dsub: "d_subs self = None \<longrightarrow>
        (\<forall>name node self'. Dir_sub dm (StoredTree entries) self name = (Inr node, self') \<longrightarrow>
           (\<exists>e \<in> set entries. \<not> is_bupm e \<and> make_child dm e = (name, node))) \<and>
        ((\<forall>e \<in> set entries. \<not> is_bupm e \<longrightarrow> fst (make_child dm e) \<noteq> ''.bupm'') \<longrightarrow>
           fst (Dir_sub dm (StoredTree entries) self ''.bupm'') = Inl NoSuchFile) \<and>
        fst (Dir_subs dm (StoredTree entries) self) = Inr (map snd (sort_key fst subs))"
    using sub hidden subs by blast
  have dch: "dm mn mode = (name, bm) \<longrightarrow>
        make_child dm (mode, mn, sha) =
          (name,
           if bm = BUP_CHUNKED then NewFile name GIT_MODE_FILE sha BUP_CHUNKED
           else if S_ISDIR mode then NewDir name mode sha
           else if S_ISLNK mode then NewSymlink name sha bm
           else NewFile name mode sha bm)"
    using make_child_cases [of dm mn mode name bm sha] by blast
  have dlook: "\<forall>name. map_of subs name =
        (case [e \<leftarrow> rev entries. \<not> is_bupm e \<and> fst (make_child dm e) = name] of
           [] \<Rightarrow> None
         | e # _ \<Rightarrow> Some (snd (make_child dm e)))"
    using look by blast
  show ?thesis
    by (rule exI [of _ subs]) (intro conjI mk' mc mkf dlook vals dsub dch)
qed

theorem Dir_mksubs_children_witness:
  "d_subs fresh_dir = None \<and>
   example_demangle ''big.bup'' 16384 = (''big'', BUP_CHUNKED) \<and> S_ISDIR 16384 \<and>
   make_child example_demangle (16384, ''big.bup'', ''h1'') =
     (''big'', NewFile ''big'' GIT_MODE_FILE ''h1'' BUP_CHUNKED) \<and>
   fst (Dir_sub example_demangle (StoredTree example_entries) fresh_dir ''.bupm'') = Inl NoSuchFile \<and>
   fst (Dir_sub example_demangle (StoredTree example_entries) fresh_dir ''big'') =
     Inr (NewFile ''big'' 33188 ''h1'' BUP_CHUNKED) \<and>
   fst (Dir_subs example_demangle (StoredTree example_entries) fresh_dir) =
     Inr [NewFile ''big'' 33188 ''h1'' BUP_CHUNKED, NewDir ''dir'' 16384 ''h2'',
          NewSymlink ''lnk'' ''h3'' BUP_NORMAL, NewFile ''run'' 33261 ''h4'' BUP_NORMAL] \<and>
   d_bupm (snd (Dir_mksubs example_demangle (StoredTree example_entries) fresh_dir)) =
     Some (NewFile ''.bupm'' 33188 ''h0'' BUP_NORMAL)"
proof -
  have h1: "d_subs fresh_dir = None" by (simp add: fresh_dir_def)
  have h2: "example_demangle ''big.bup'' 16384 = (''big'', BUP_CHUNKED)"
    by (simp add: example_demangle_def)
  have h3: "S_ISDIR 16384" by (simp add: S_ISDIR_def)
  note w = Dir_mksubs_children [of example_demangle example_entries fresh_dir
      "''big.bup''" 16384 "''big''" BUP_CHUNKED "''h1''"]
  from w h2
  have ch: "make_child example_demangle (16384, ''big.bup'', ''h1'') =
     (''big'', NewFile ''big'' GIT_MODE_FILE ''h1'' BUP_CHUNKED)"
    by auto
  have no: "\<forall>e \<in> set example_entries. \<not> is_bupm e \<longrightarrow> fst (make_child example_demangle e) \<noteq> ''.bupm''"
    by code_simp
  from w h1 no
  have hid: "fst (Dir_sub example_demangle (StoredTree example_entries) fresh_dir ''.bupm'') = Inl NoSuchFile"
    by blast
  have ev: "fst (Dir_sub example_demangle (StoredTree example_entries) fresh_dir ''big'') =
     Inr (NewFile ''big'' 33188 ''h1'' BUP_CHUNKED)"
    "fst (Dir_subs example_demangle (StoredTree example_entries) fresh_dir) =
     Inr [NewFile ''big'' 33188 ''h1'' BUP_CHUNKED, NewDir ''dir'' 16384 ''h2'',
          NewSymlink ''lnk'' ''h3'' BUP_NORMAL, NewFile ''run'' 33261 ''h4'' BUP_NORMAL]"
    "d_bupm (snd (Dir_mksubs example_demangle (StoredTree example_entries) fresh_dir)) =
     Some (NewFile ''.bupm'' 33188 ''h0'' BUP_NORMAL)"
    by code_simp+
  from h1 h2 h3 ch hid ev show ?thesis by (intro conjI)
qed

section \<open>Proofs: the links of a branch\<close>











section \<open>Proofs: the temporary bloom file\<close>

text \<open>When \<open>find_live_objects\<close> returns and neither \<open>close\<close> nor \<open>unlink\<close> raises, the
  file is closed and removed, whatever the body of the \<open>try\<close> statement does.\<close>

lemma bloom_file_removed_after_try:
  "\<not> raises Mkstemp \<Longrightarrow> \<not> raises Bloom_create \<Longrightarrow> \<not> raises Walk_objects \<Longrightarrow>
   \<not> raises Bloom_close \<Longrightarrow> \<not> raises Unlink_bloom \<Longrightarrow>
   snd (gc_main raises existing_count) = no_bloom_file"
  by (simp add: gc_main_def find_live_objects_def try_body_def finally_clause_def call_def
      no_bloom_file_def split: prod.splits option.splits)

text \<open>
  C3, at an input at which the code leaves the file behind.  The repository has objects,
  and the walk over the objects of a ref raises while the live set is being built, for
  instance for a missing object or an interrupt; every other call returns.  The process
  ends with that exception, and the temporary file is still on disk and still open:
  nothing closes or unlinks it.
\<close>

theorem bloom_file_left_behind:
  "gc_main (\<lambda>c. c = Walk_objects) 1 =
     (Some (Raised Walk_objects), \<lparr>on_disk = True, held_open = True\<rparr>)"
  by (simp add: gc_main_def find_live_objects_def call_def no_bloom_file_def)

end
